theory Spec2Isabelle
  imports
    Main
    "HOL-Library.Char_ord"
    "HOL-Library.List_Lexorder"
    "HOL-Library.Sublist"
begin

section \<open>Python values used by email\_client.py\<close>

text \<open>
  A Python \<open>str\<close> is modelled as a \<open>string\<close> whose characters are the code points
  0..255. On these code points the functions below agree with \<open>str.isspace\<close>,
  \<open>str.strip\<close>, \<open>str.lower\<close>, \<open>str.split\<close>, \<open>str.startswith\<close>, the operator
  \<open>in\<close> on strings and \<open>int\<close>. The order on strings (\<open>List_Lexorder\<close> over
  \<open>Char_ord\<close>) is the lexicographic order on code points, as Python's \<open><\<close> on
  \<open>str\<close>. CPython's limit on the number of digits \<open>int\<close> accepts is not modelled.
\<close>

datatype py_error = KeyError | IndexError | ValueError | EOFError | RecursionError

definition isspace :: "char \<Rightarrow> bool" where
  "isspace c = (of_char c \<in> {9, 10, 11, 12, 13, 28, 29, 30, 31, 32, 133, 160 :: nat})"

definition strip :: "string \<Rightarrow> string" where
  "strip s = rev (dropWhile isspace (rev (dropWhile isspace s)))"

definition lower_char :: "char \<Rightarrow> char" where
  "lower_char c =
     (let n = (of_char c :: nat)
      in if (65 \<le> n \<and> n \<le> 90) \<or> (192 \<le> n \<and> n \<le> 222 \<and> n \<noteq> 215)
         then char_of (n + 32) else c)"

definition lower :: "string \<Rightarrow> string" where
  "lower s = map lower_char s"

text \<open>\<open>s.split(",")\<close>: the fields between commas; never the empty list.\<close>

fun split_comma :: "string \<Rightarrow> string list" where
  "split_comma [] = [[]]"
| "split_comma (c # cs) =
     (if c = CHR '','' then [] # split_comma cs
      else (case split_comma cs of [] \<Rightarrow> [[c]] | w # ws \<Rightarrow> (c # w) # ws))"

text \<open>\<open>s.split()\<close>: the maximal runs of characters that are not white space.\<close>

fun split_ws_aux :: "string \<Rightarrow> string \<Rightarrow> string list" where
  "split_ws_aux w [] = (if w = [] then [] else [rev w])"
| "split_ws_aux w (c # cs) =
     (if isspace c then (if w = [] then split_ws_aux [] cs else rev w # split_ws_aux [] cs)
      else split_ws_aux (c # w) cs)"

definition split_ws :: "string \<Rightarrow> string list" where
  "split_ws s = split_ws_aux [] s"

text \<open>\<open>xs[i]\<close> and \<open>xs.pop(i)\<close>: a negative index counts from the end.\<close>

definition norm_index :: "nat \<Rightarrow> int \<Rightarrow> nat option" where
  "norm_index n i =
     (if 0 \<le> i \<and> i < int n then Some (nat i)
      else if - int n \<le> i \<and> i < 0 then Some (nat (int n + i))
      else None)"

definition list_index :: "'a list \<Rightarrow> int \<Rightarrow> py_error + 'a" where
  "list_index xs i =
     (case norm_index (length xs) i of
        None \<Rightarrow> Inl IndexError
      | Some j \<Rightarrow> Inr (xs ! j))"

definition list_pop :: "'a list \<Rightarrow> int \<Rightarrow> py_error + ('a \<times> 'a list)" where
  "list_pop xs i =
     (case norm_index (length xs) i of
        None \<Rightarrow> Inl IndexError
      | Some j \<Rightarrow> Inr (xs ! j, take j xs @ drop (Suc j) xs))"

text \<open>
  \<open>int(s)\<close> on a string: white space around the literal is dropped (for \<open>int\<close>
  the code points 28..31 are not white space), then an optional sign and decimal
  digits, where single underscores may stand between digits.
\<close>

definition int_space :: "char \<Rightarrow> bool" where
  "int_space c = (of_char c \<in> {9, 10, 11, 12, 13, 32, 133, 160 :: nat})"

definition isdigit :: "char \<Rightarrow> bool" where
  "isdigit c = (48 \<le> (of_char c :: nat) \<and> (of_char c :: nat) \<le> 57)"

definition digit_val :: "char \<Rightarrow> nat" where
  "digit_val c = of_char c - 48"

fun parse_digits :: "nat \<Rightarrow> string \<Rightarrow> nat option" where
  "parse_digits acc [] = Some acc"
| "parse_digits acc [c] = (if isdigit c then Some (10 * acc + digit_val c) else None)"
| "parse_digits acc (c # d # cs) =
     (if isdigit c then parse_digits (10 * acc + digit_val c) (d # cs)
      else if c = CHR ''_'' \<and> isdigit d then parse_digits acc (d # cs)
      else None)"

definition parse_nat :: "string \<Rightarrow> nat option" where
  "parse_nat s =
     (case s of [] \<Rightarrow> None
      | c # cs \<Rightarrow> if isdigit c then parse_digits (digit_val c) cs else None)"

definition py_int :: "string \<Rightarrow> py_error + int" where
  "py_int s =
     (case rev (dropWhile int_space (rev (dropWhile int_space s))) of
        [] \<Rightarrow> Inl ValueError
      | c # cs \<Rightarrow>
          if c = CHR ''-'' then
            (case parse_nat cs of None \<Rightarrow> Inl ValueError | Some n \<Rightarrow> Inr (- int n))
          else if c = CHR ''+'' then
            (case parse_nat cs of None \<Rightarrow> Inl ValueError | Some n \<Rightarrow> Inr (int n))
          else
            (case parse_nat (c # cs) of None \<Rightarrow> Inl ValueError | Some n \<Rightarrow> Inr (int n)))"

section \<open>Account store\<close>

type_synonym users = "string \<rightharpoonup> string"

definition MAX_TRIES :: nat where
  "MAX_TRIES = 3"

text \<open>
  \<open>login\<close>: standard input is the list of lines still to be read; \<open>input\<close> on an
  exhausted list raises \<open>EOFError\<close>. The result is the returned user name
  (\<open>None\<close> for Python's \<open>None\<close>).
\<close>

function login_loop :: "users \<Rightarrow> nat \<Rightarrow> string list \<Rightarrow> py_error + string option" where
  "login_loop users tries inp =
     (if tries < MAX_TRIES then
        (case inp of
           [] \<Rightarrow> Inl EOFError
         | l1 # inp1 \<Rightarrow>
             (case users (strip l1) of
                None \<Rightarrow> login_loop users (Suc tries) inp1
              | Some stored \<Rightarrow>
                  (case inp1 of
                     [] \<Rightarrow> Inl EOFError
                   | l2 # inp2 \<Rightarrow>
                       if stored = strip l2 then Inr (Some (strip l1))
                       else login_loop users (Suc tries) inp2)))
      else Inr None)"
  by pat_completeness auto
termination
  by (relation "measure (\<lambda>(users, tries, inp). MAX_TRIES - tries)") auto

definition login :: "users \<Rightarrow> string list \<Rightarrow> py_error + string option" where
  "login users inp = login_loop users 0 inp"


text \<open>
  \<open>register_user\<close>: the loop reads user names until one is not a key of \<open>users\<close>,
  then reads the password and stores the pair. The returned store is also what
  \<open>save_json(USERS_FILE, users)\<close> writes.
\<close>

fun register_user :: "users \<Rightarrow> string list \<Rightarrow> py_error + (string \<times> users)" where
  "register_user users [] = Inl EOFError"
| "register_user users (l # inp) =
     (if users (strip l) \<noteq> None then register_user users inp
      else (case inp of
              [] \<Rightarrow> Inl EOFError
            | p # _ \<Rightarrow> Inr (strip l, users(strip l \<mapsto> strip p))))"

section \<open>Mailbox store\<close>

text \<open>
  A message is the dict that \<open>compose_email\<close> builds, with its six keys, so
  \<open>msg.get("read", False)\<close> and \<open>draft.get("to", [])\<close> never fall back on their
  defaults. Message dicts are objects: the lists of a mailbox hold references to
  them, so the state has a heap of message objects, \<open>next_addr\<close> being the first
  address not yet allocated. The three lists of a mailbox are held by that mailbox
  alone and are kept by value.
\<close>

type_synonym addr = nat

record message =
  msg_from :: string
  msg_to :: "string list"
  subject :: string
  body :: string
  time :: string
  read :: bool

record mailbox =
  inbox :: "addr list"
  drafts :: "addr list"
  sent :: "addr list"

record state =
  heap :: "addr \<Rightarrow> message"
  next_addr :: addr
  inboxes :: "string \<rightharpoonup> mailbox"

text \<open>A call either returns a value in a new state or raises in the state reached.\<close>

type_synonym 'a result = "(py_error \<times> state) + ('a \<times> state)"

definition alloc :: "message \<Rightarrow> state \<Rightarrow> addr \<times> state" where
  "alloc m st =
     (next_addr st, st\<lparr>heap := (heap st)(next_addr st := m), next_addr := Suc (next_addr st)\<rparr>)"

definition ensure_user_box :: "string \<Rightarrow> state \<Rightarrow> state" where
  "ensure_user_box username st =
     (if inboxes st username = None
      then st\<lparr>inboxes := (inboxes st)(username \<mapsto> \<lparr>inbox = [], drafts = [], sent = []\<rparr>)\<rparr>
      else st)"

text \<open>\<open>inboxes[recipient]["inbox"].append(email.copy())\<close>\<close>

definition append_inbox_copy :: "string \<Rightarrow> addr \<Rightarrow> state \<Rightarrow> unit result" where
  "append_inbox_copy recipient email st =
     (case inboxes st recipient of
        None \<Rightarrow> Inl (KeyError, st)
      | Some mb \<Rightarrow>
          (let (c, st1) = alloc (heap st email) st
           in Inr ((), st1\<lparr>inboxes := (inboxes st1)(recipient \<mapsto> mb\<lparr>inbox := inbox mb @ [c]\<rparr>)\<rparr>)))"

text \<open>\<open>inboxes[sender]["sent"].append(email)\<close>\<close>

definition append_sent :: "string \<Rightarrow> addr \<Rightarrow> state \<Rightarrow> unit result" where
  "append_sent sender email st =
     (case inboxes st sender of
        None \<Rightarrow> Inl (KeyError, st)
      | Some mb \<Rightarrow> Inr ((), st\<lparr>inboxes := (inboxes st)(sender \<mapsto> mb\<lparr>sent := sent mb @ [email]\<rparr>)\<rparr>))"

text \<open>\<open>inboxes[sender]["drafts"].append(email)\<close>\<close>

definition append_drafts :: "string \<Rightarrow> addr \<Rightarrow> state \<Rightarrow> unit result" where
  "append_drafts sender email st =
     (case inboxes st sender of
        None \<Rightarrow> Inl (KeyError, st)
      | Some mb \<Rightarrow> Inr ((), st\<lparr>inboxes := (inboxes st)(sender \<mapsto> mb\<lparr>drafts := drafts mb @ [email]\<rparr>)\<rparr>))"

text \<open>
  A local variable bound to \<open>inboxes[username]["inbox"]\<close> (or \<open>["drafts"]\<close>,
  \<open>["sent"]\<close>) is an alias of the list the mailbox holds: reading it reads the
  mailbox's list in the current state, and \<open>pop\<close> on it changes that list.
\<close>

definition inbox_of :: "state \<Rightarrow> string \<Rightarrow> addr list" where
  "inbox_of st u = (case inboxes st u of None \<Rightarrow> [] | Some mb \<Rightarrow> inbox mb)"

definition drafts_of :: "state \<Rightarrow> string \<Rightarrow> addr list" where
  "drafts_of st u = (case inboxes st u of None \<Rightarrow> [] | Some mb \<Rightarrow> drafts mb)"

definition sent_of :: "state \<Rightarrow> string \<Rightarrow> addr list" where
  "sent_of st u = (case inboxes st u of None \<Rightarrow> [] | Some mb \<Rightarrow> sent mb)"

definition set_inbox :: "string \<Rightarrow> addr list \<Rightarrow> state \<Rightarrow> state" where
  "set_inbox u xs st =
     (case inboxes st u of
        None \<Rightarrow> st
      | Some mb \<Rightarrow> st\<lparr>inboxes := (inboxes st)(u \<mapsto> mb\<lparr>inbox := xs\<rparr>)\<rparr>)"

definition set_drafts :: "string \<Rightarrow> addr list \<Rightarrow> state \<Rightarrow> state" where
  "set_drafts u xs st =
     (case inboxes st u of
        None \<Rightarrow> st
      | Some mb \<Rightarrow> st\<lparr>inboxes := (inboxes st)(u \<mapsto> mb\<lparr>drafts := xs\<rparr>)\<rparr>)"

section \<open>Mail functions\<close>

text \<open>
  \<open>compose_email\<close>: the four lines read from standard input and the clock reading
  \<open>datetime.now().isoformat(timespec='seconds')\<close> are parameters.
\<close>

definition compose_email ::
  "string \<Rightarrow> string \<Rightarrow> string \<Rightarrow> string \<Rightarrow> string \<Rightarrow> string \<Rightarrow> message \<times> string list \<times> string" where
  "compose_email sender recipients_line subject_line body_line now action_line =
     (let recipients = map strip (filter (\<lambda>r. strip r \<noteq> []) (split_comma (strip recipients_line)))
      in (\<lparr>msg_from = sender, msg_to = recipients, subject = strip subject_line,
           body = strip body_line, time = now, read = False\<rparr>,
          recipients,
          lower (strip action_line)))"

text \<open>
  The loop \<open>for recipient in recipients: ensure_user_box(recipient, inboxes);
  inboxes[recipient]["inbox"].append(email.copy())\<close> of \<open>send_email\<close>, which
  \<open>view_drafts\<close> repeats for a draft.
\<close>

fun deliver_copies :: "addr \<Rightarrow> string list \<Rightarrow> state \<Rightarrow> unit result" where
  "deliver_copies email [] st = Inr ((), st)"
| "deliver_copies email (recipient # rs) st =
     (case append_inbox_copy recipient email (ensure_user_box recipient st) of
        Inl e \<Rightarrow> Inl e
      | Inr (_, st1) \<Rightarrow> deliver_copies email rs st1)"

datatype send_report = EmailSentTo "string list" | SavedToDrafts | InvalidOption

text \<open>
  \<open>send_email\<close>, given the triple that \<open>compose_email\<close> returned. The message dict
  is a new object; \<open>email\<close> below is its address.
\<close>

definition send_email :: "string \<Rightarrow> message \<times> string list \<times> string \<Rightarrow> state \<Rightarrow> send_report result" where
  "send_email sender composed st0 =
     (case composed of (email_dict, recipients, action) \<Rightarrow>
        (let (email, st1) = alloc email_dict st0;
             st = ensure_user_box sender st1
         in if action = ''send'' then
              (case deliver_copies email recipients st of
                 Inl e \<Rightarrow> Inl e
               | Inr (_, st2) \<Rightarrow>
                   (case append_sent sender email st2 of
                      Inl e \<Rightarrow> Inl e
                    | Inr (_, st3) \<Rightarrow> Inr (EmailSentTo recipients, st3)))
            else if action = ''draft'' then
              (case append_drafts sender email st of
                 Inl e \<Rightarrow> Inl e
               | Inr (_, st2) \<Rightarrow> Inr (SavedToDrafts, st2))
            else Inr (InvalidOption, st)))"

text \<open>
  \<open>view_inbox\<close>: each printed entry is the index, whether \<open>[NEW]\<close> is shown, and
  the message as it is when printed; the loop sets \<open>read\<close> on the object after
  printing it. An empty inbox prints no entry. \<open>sorted\<close> is a stable sort by the
  key, as \<open>sort_key\<close> is; it returns a new list of the same objects.
\<close>

type_synonym shown = "nat \<times> bool \<times> message"

text \<open>\<open>msg['read'] = True\<close> on the object at address \<open>msg\<close>.\<close>

definition mark_read :: "addr \<Rightarrow> (addr \<Rightarrow> message) \<Rightarrow> (addr \<Rightarrow> message)" where
  "mark_read msg h = h(msg := (h msg)\<lparr>read := True\<rparr>)"

fun show_inbox :: "nat \<Rightarrow> addr list \<Rightarrow> (addr \<Rightarrow> message) \<Rightarrow> shown list \<times> (addr \<Rightarrow> message)" where
  "show_inbox idx [] h = ([], h)"
| "show_inbox idx (msg # msgs) h =
     (let entry = (idx, \<not> read (h msg), h msg);
          (out, h') = show_inbox (Suc idx) msgs (mark_read msg h)
      in (entry # out, h'))"

definition view_inbox :: "string \<Rightarrow> state \<Rightarrow> shown list result" where
  "view_inbox username st0 =
     (let st = ensure_user_box username st0
      in case inboxes st username of
           None \<Rightarrow> Inl (KeyError, st)
         | Some mb \<Rightarrow>
             if inbox mb = [] then Inr ([], st)
             else (let sorted_inbox = sort_key (\<lambda>m. time (heap st m)) (inbox mb);
                       (out, h) = show_inbox 0 sorted_inbox (heap st)
                   in Inr (out, st\<lparr>heap := h\<rparr>)))"

text \<open>
  \<open>view_drafts\<close>. The listing of the drafts changes nothing and is left out; the
  line read by \<open>input\<close> is a parameter (it is read only when there are drafts).
  The two \<open>try\<close> bodies come first; \<open>except Exception\<close> turns whatever they raise
  into the report \<open>Invalid index.\<close>, in the state reached when it was raised.
\<close>

datatype drafts_report = NoDrafts | DraftSent | DraftDeleted | InvalidIndex | Cancelled

definition try_send_draft :: "string \<Rightarrow> string \<Rightarrow> state \<Rightarrow> unit result" where
  "try_send_draft username choice st =
     (case list_index (split_ws choice) 1 of
        Inl e \<Rightarrow> Inl (e, st)
      | Inr token \<Rightarrow>
          (case py_int token of
             Inl e \<Rightarrow> Inl (e, st)
           | Inr index \<Rightarrow>
               (case list_pop (drafts_of st username) index of
                  Inl e \<Rightarrow> Inl (e, st)
                | Inr (draft, rest) \<Rightarrow>
                    (let st1 = set_drafts username rest st
                     in case deliver_copies draft (msg_to (heap st1 draft)) st1 of
                          Inl e \<Rightarrow> Inl e
                        | Inr (_, st2) \<Rightarrow> append_sent username draft st2))))"

definition try_del_draft :: "string \<Rightarrow> string \<Rightarrow> state \<Rightarrow> unit result" where
  "try_del_draft username choice st =
     (case list_index (split_ws choice) 1 of
        Inl e \<Rightarrow> Inl (e, st)
      | Inr token \<Rightarrow>
          (case py_int token of
             Inl e \<Rightarrow> Inl (e, st)
           | Inr index \<Rightarrow>
               (case list_pop (drafts_of st username) index of
                  Inl e \<Rightarrow> Inl (e, st)
                | Inr (draft, rest) \<Rightarrow> Inr ((), set_drafts username rest st))))"

definition view_drafts :: "string \<Rightarrow> string \<Rightarrow> state \<Rightarrow> drafts_report result" where
  "view_drafts username choice_line st0 =
     (let st = ensure_user_box username st0
      in case inboxes st username of
           None \<Rightarrow> Inl (KeyError, st)
         | Some mb \<Rightarrow>
             if drafts mb = [] then Inr (NoDrafts, st)
             else (let choice = strip choice_line
                   in if prefix ''send'' choice then
                        (case try_send_draft username choice st of
                           Inl (e, st') \<Rightarrow> Inr (InvalidIndex, st')
                         | Inr (_, st') \<Rightarrow> Inr (DraftSent, st'))
                      else if prefix ''del'' choice then
                        (case try_del_draft username choice st of
                           Inl (e, st') \<Rightarrow> Inr (InvalidIndex, st')
                         | Inr (_, st') \<Rightarrow> Inr (DraftDeleted, st'))
                      else Inr (Cancelled, st)))"

text \<open>
  \<open>delete_email\<close>: the report, with what \<open>view_inbox\<close> printed before the prompt.
  Only \<open>ValueError\<close>, which \<open>int\<close> raises, is caught.
\<close>

datatype delete_report = NoEmails | Deleted string | InvalidIndexD | InvalidNumber

definition delete_email :: "string \<Rightarrow> string \<Rightarrow> state \<Rightarrow> (shown list \<times> delete_report) result" where
  "delete_email username line st0 =
     (let st = ensure_user_box username st0
      in case inboxes st username of
           None \<Rightarrow> Inl (KeyError, st)
         | Some mb \<Rightarrow>
             if inbox mb = [] then Inr (([], NoEmails), st)
             else (case view_inbox username st of
                     Inl e \<Rightarrow> Inl e
                   | Inr (out, st1) \<Rightarrow>
                       (case py_int line of
                          Inl e \<Rightarrow>
                            if e = ValueError then Inr ((out, InvalidNumber), st1) else Inl (e, st1)
                        | Inr index \<Rightarrow>
                            if 0 \<le> index \<and> index < int (length (inbox_of st1 username)) then
                              (case list_pop (inbox_of st1 username) index of
                                 Inl e \<Rightarrow> Inl (e, st1)
                               | Inr (deleted, rest) \<Rightarrow>
                                   Inr ((out, Deleted (msg_from (heap st1 deleted))),
                                        set_inbox username rest st1))
                            else Inr ((out, InvalidIndexD), st1))))"

text \<open>
  \<open>search_emails\<close>: the list \<open>results\<close> of the pairs of an index and the message
  found there; \<open>keyword in s\<close> is \<open>sublist keyword s\<close>.
\<close>

fun search_loop ::
  "string \<Rightarrow> (addr \<Rightarrow> message) \<Rightarrow> (nat \<times> addr) list \<Rightarrow> (nat \<times> message) list \<Rightarrow> (nat \<times> message) list" where
  "search_loop keyword h [] results = results"
| "search_loop keyword h ((idx, msg) # rest) results =
     search_loop keyword h rest
       (if sublist keyword (lower (subject (h msg))) \<or> sublist keyword (lower (body (h msg)))
        then results @ [(idx, h msg)] else results)"

definition search_emails :: "string \<Rightarrow> string \<Rightarrow> state \<Rightarrow> (nat \<times> message) list result" where
  "search_emails username keyword_line st0 =
     (let st = ensure_user_box username st0;
          keyword = lower (strip keyword_line)
      in case inboxes st username of
           None \<Rightarrow> Inl (KeyError, st)
         | Some mb \<Rightarrow> Inr (search_loop keyword (heap st) (enumerate 0 (inbox mb)) [], st))"

section \<open>Persistence\<close>

text \<open>
  The values that \<open>json.dump\<close> writes for this program: \<open>None\<close>, booleans, strings,
  lists, and dicts with string keys, a dict being the list of its items in
  insertion order.
\<close>

datatype py_value =
  PNone | PBool bool | PStr string | PList "py_value list" | PDict "(string \<times> py_value) list"

text \<open>
  \<open>json.dumps(data, indent=4)\<close>, the text that \<open>json.dump(data, f, indent=4)\<close> writes:
  with \<open>ensure_ascii\<close>, a character outside the printable ASCII range is written as
  an escape; items are separated by a comma, a line break and the indentation, a
  key and its value by a colon and a space; empty lists and dicts stay on one line.
\<close>

definition quote :: char where "quote = CHR 0x22"
definition backslash :: char where "backslash = CHR 0x5C"

definition hex_digit :: "nat \<Rightarrow> char" where
  "hex_digit k = (if k < 10 then char_of (48 + k) else char_of (87 + k))"

definition escape_char :: "char \<Rightarrow> string" where
  "escape_char c =
     (if c = quote then [backslash, quote]
      else if c = backslash then [backslash, backslash]
      else if c = CHR 0x0A then [backslash, CHR ''n'']
      else if c = CHR 0x0D then [backslash, CHR ''r'']
      else if c = CHR 0x09 then [backslash, CHR ''t'']
      else if c = CHR 0x08 then [backslash, CHR ''b'']
      else if c = CHR 0x0C then [backslash, CHR ''f'']
      else if 32 \<le> (of_char c :: nat) \<and> (of_char c :: nat) \<le> 126 then [c]
      else [backslash, CHR ''u'', CHR ''0'', CHR ''0'',
            hex_digit ((of_char c :: nat) div 16), hex_digit ((of_char c :: nat) mod 16)])"

definition dump_str :: "string \<Rightarrow> string" where
  "dump_str s = quote # concat (map escape_char s) @ [quote]"

definition newline_indent :: "nat \<Rightarrow> string" where
  "newline_indent level = CHR 0x0A # replicate (4 * level) CHR '' ''"

fun join_items :: "nat \<Rightarrow> string list \<Rightarrow> string" where
  "join_items level [] = []"
| "join_items level [x] = newline_indent level @ x"
| "join_items level (x # y # ys) = newline_indent level @ x @ '','' @ join_items level (y # ys)"

fun json_dumps :: "nat \<Rightarrow> py_value \<Rightarrow> string" where
  "json_dumps level PNone = ''null''"
| "json_dumps level (PBool b) = (if b then ''true'' else ''false'')"
| "json_dumps level (PStr s) = dump_str s"
| "json_dumps level (PList xs) =
     (if xs = [] then ''[]''
      else ''['' @ join_items (Suc level) (map (json_dumps (Suc level)) xs) @
           newline_indent level @ '']'')"
| "json_dumps level (PDict kvs) =
     (if kvs = [] then ''{}''
      else ''{'' @ join_items (Suc level)
                    (map (\<lambda>(k, v). dump_str k @ '': '' @ json_dumps (Suc level) v) kvs) @
           newline_indent level @ ''}'')"

text \<open>
  \<open>json.loads\<close>, the decoder that \<open>json.load\<close> applies to the text of the file:
  \<open>scan_string\<close> reads a string after its opening quote, \<open>scan_once\<close> a value,
  \<open>scan_array\<close> and \<open>scan_object\<close> the items after an opening bracket or brace;
  \<open>dict(pairs)\<close> keeps the last value of a repeated key. Every malformed text
  raises \<open>JSONDecodeError\<close>, a \<open>ValueError\<close>. Numbers are not values of this
  model, and neither are characters beyond code point 255: on a text with a number
  or with such an escape the model raises where \<open>json.loads\<close> returns. The first
  argument of the three scanners bounds the number of nested calls;
  \<open>json_loads\<close> gives them enough for the whole text, so the recursion limit of
  the interpreter is not modelled.
\<close>

definition json_ws :: "char \<Rightarrow> bool" where
  "json_ws c = (c = CHR '' '' \<or> c = CHR 0x09 \<or> c = CHR 0x0A \<or> c = CHR 0x0D)"

definition skip_ws :: "string \<Rightarrow> string" where
  "skip_ws s = dropWhile json_ws s"

definition hex_val :: "char \<Rightarrow> nat option" where
  "hex_val c =
     (let n = (of_char c :: nat)
      in if 48 \<le> n \<and> n \<le> 57 then Some (n - 48)
         else if 97 \<le> n \<and> n \<le> 102 then Some (n - 87)
         else if 65 \<le> n \<and> n \<le> 70 then Some (n - 55)
         else None)"

definition hex4 :: "char \<Rightarrow> char \<Rightarrow> char \<Rightarrow> char \<Rightarrow> char option" where
  "hex4 a b c d =
     (case (hex_val a, hex_val b, hex_val c, hex_val d) of
        (Some x, Some y, Some z, Some w) \<Rightarrow>
          if x = 0 \<and> y = 0 then Some (char_of (16 * z + w)) else None
      | _ \<Rightarrow> None)"

definition unescape :: "char \<Rightarrow> char option" where
  "unescape e =
     (if e = quote then Some quote
      else if e = backslash then Some backslash
      else if e = CHR ''/'' then Some CHR ''/''
      else if e = CHR ''b'' then Some (CHR 0x08)
      else if e = CHR ''f'' then Some (CHR 0x0C)
      else if e = CHR ''n'' then Some (CHR 0x0A)
      else if e = CHR ''r'' then Some (CHR 0x0D)
      else if e = CHR ''t'' then Some (CHR 0x09)
      else None)"

fun scan_string :: "string \<Rightarrow> string \<Rightarrow> py_error + (string \<times> string)" where
  "scan_string acc [] = Inl ValueError"
| "scan_string acc (c # cs) =
     (if c = quote then Inr (rev acc, cs)
      else if c = backslash then
        (case cs of
           [] \<Rightarrow> Inl ValueError
         | e # cs1 \<Rightarrow>
             if e = CHR ''u'' then
               (case cs1 of
                  a # b # c # d # cs2 \<Rightarrow>
                    (case hex4 a b c d of
                       None \<Rightarrow> Inl ValueError
                     | Some ch \<Rightarrow> scan_string (ch # acc) cs2)
                | _ \<Rightarrow> Inl ValueError)
             else (case unescape e of
                     None \<Rightarrow> Inl ValueError
                   | Some ch \<Rightarrow> scan_string (ch # acc) cs1))
      else if (of_char c :: nat) < 32 then Inl ValueError
      else scan_string (c # acc) cs)"

fun dict_set :: "(string \<times> 'v) list \<Rightarrow> string \<Rightarrow> 'v \<Rightarrow> (string \<times> 'v) list" where
  "dict_set [] k v = [(k, v)]"
| "dict_set ((k', v') # d) k v = (if k' = k then (k, v) # d else (k', v') # dict_set d k v)"

fun scan_once :: "nat \<Rightarrow> string \<Rightarrow> py_error + (py_value \<times> string)"
  and scan_array :: "nat \<Rightarrow> py_value list \<Rightarrow> string \<Rightarrow> py_error + (py_value \<times> string)"
  and scan_object :: "nat \<Rightarrow> (string \<times> py_value) list \<Rightarrow> string \<Rightarrow> py_error + (py_value \<times> string)"
where
  "scan_once 0 s = Inl RecursionError"
| "scan_once (Suc n) s =
     (case s of
        [] \<Rightarrow> Inl ValueError
      | c # cs \<Rightarrow>
          if c = quote then
            (case scan_string [] cs of
               Inl e \<Rightarrow> Inl e
             | Inr (str, rest) \<Rightarrow> Inr (PStr str, rest))
          else if c = CHR ''{'' then
            (case skip_ws cs of
               [] \<Rightarrow> Inl ValueError
             | d # ds \<Rightarrow> if d = CHR ''}'' then Inr (PDict [], ds) else scan_object n [] (d # ds))
          else if c = CHR ''['' then
            (case skip_ws cs of
               [] \<Rightarrow> Inl ValueError
             | d # ds \<Rightarrow> if d = CHR '']'' then Inr (PList [], ds) else scan_array n [] (d # ds))
          else if prefix ''null'' s then Inr (PNone, drop 4 s)
          else if prefix ''true'' s then Inr (PBool True, drop 4 s)
          else if prefix ''false'' s then Inr (PBool False, drop 5 s)
          else Inl ValueError)"
| "scan_array 0 values s = Inl RecursionError"
| "scan_array (Suc n) values s =
     (case scan_once n s of
        Inl e \<Rightarrow> Inl e
      | Inr (v, rest) \<Rightarrow>
          (case skip_ws rest of
             [] \<Rightarrow> Inl ValueError
           | d # ds \<Rightarrow>
               if d = CHR '']'' then Inr (PList (values @ [v]), ds)
               else if d = CHR '','' then scan_array n (values @ [v]) (skip_ws ds)
               else Inl ValueError))"
| "scan_object 0 pairs s = Inl RecursionError"
| "scan_object (Suc n) pairs s =
     (case s of
        [] \<Rightarrow> Inl ValueError
      | q # cs \<Rightarrow>
          if q \<noteq> quote then Inl ValueError
          else
            (case scan_string [] cs of
               Inl e \<Rightarrow> Inl e
             | Inr (key, rest) \<Rightarrow>
                 (case skip_ws rest of
                    [] \<Rightarrow> Inl ValueError
                  | c # rest1 \<Rightarrow>
                      if c \<noteq> CHR '':'' then Inl ValueError
                      else
                        (case scan_once n (skip_ws rest1) of
                           Inl e \<Rightarrow> Inl e
                         | Inr (v, rest2) \<Rightarrow>
                             (case skip_ws rest2 of
                                [] \<Rightarrow> Inl ValueError
                              | d # ds \<Rightarrow>
                                  if d = CHR ''}'' then Inr (PDict (dict_set pairs key v), ds)
                                  else if d = CHR '','' then
                                    scan_object n (dict_set pairs key v) (skip_ws ds)
                                  else Inl ValueError)))))"

definition json_loads :: "string \<Rightarrow> py_error + py_value" where
  "json_loads s =
     (case scan_once (Suc (2 * length s)) (skip_ws s) of
        Inl e \<Rightarrow> Inl e
      | Inr (v, rest) \<Rightarrow> if skip_ws rest = [] then Inr v else Inl ValueError)"

definition json_dump :: "py_value \<Rightarrow> string" where
  "json_dump data = json_dumps 0 data"

text \<open>
  The file system maps a path to the text of the file there. \<open>load_json\<close> returns
  \<open>{}\<close> when there is no file; \<open>save_json\<close> replaces the file's text.
\<close>

type_synonym files = "string \<rightharpoonup> string"

definition USERS_FILE :: string where
  "USERS_FILE = ''users.json''"

definition INBOX_FILE :: string where
  "INBOX_FILE = ''inboxes.json''"

definition load_json :: "files \<Rightarrow> string \<Rightarrow> py_error + py_value" where
  "load_json fs filename =
     (case fs filename of
        Some content \<Rightarrow> json_loads content
      | None \<Rightarrow> Inr (PDict []))"

definition save_json :: "files \<Rightarrow> string \<Rightarrow> py_value \<Rightarrow> files" where
  "save_json fs filename data = fs(filename \<mapsto> json_dump data)"

text \<open>
  The stores as \<open>json.dump\<close> sees them. A message dict has the keys in the order
  of the literal in \<open>compose_email\<close>, a mailbox in the order of the literal in
  \<open>ensure_user_box\<close>; the objects that the lists refer to are written out in
  place. The keys of \<open>users\<close> and \<open>inboxes\<close> in insertion order are the list
  \<open>names\<close>.
\<close>

definition message_value :: "message \<Rightarrow> py_value" where
  "message_value m =
     PDict [(''from'', PStr (msg_from m)), (''to'', PList (map PStr (msg_to m))),
            (''subject'', PStr (subject m)), (''body'', PStr (body m)),
            (''time'', PStr (time m)), (''read'', PBool (read m))]"

definition mailbox_value :: "(addr \<Rightarrow> message) \<Rightarrow> mailbox \<Rightarrow> py_value" where
  "mailbox_value h mb =
     PDict [(''inbox'', PList (map (\<lambda>a. message_value (h a)) (inbox mb))),
            (''drafts'', PList (map (\<lambda>a. message_value (h a)) (drafts mb))),
            (''sent'', PList (map (\<lambda>a. message_value (h a)) (sent mb)))]"

definition users_value :: "users \<Rightarrow> string list \<Rightarrow> py_value" where
  "users_value users names =
     PDict (List.map_filter (\<lambda>u. map_option (\<lambda>p. (u, PStr p)) (users u)) names)"

definition inboxes_value :: "state \<Rightarrow> string list \<Rightarrow> py_value" where
  "inboxes_value st names =
     PDict (List.map_filter
              (\<lambda>u. map_option (\<lambda>mb. (u, mailbox_value (heap st) mb)) (inboxes st u)) names)"


section \<open>Notions used in the statements\<close>

text \<open>
  One login attempt is the pair of the lines typed at the two prompts. The
  password prompt appears only when the user name exists, so only then does the
  attempt put its second line on standard input.
\<close>

fun attempt_lines :: "users \<Rightarrow> string \<times> string \<Rightarrow> string list" where
  "attempt_lines users (u, p) = (if users (strip u) = None then [u] else [u, p])"

fun attempt_correct :: "users \<Rightarrow> string \<times> string \<Rightarrow> bool" where
  "attempt_correct users (u, p) = (users (strip u) = Some (strip p))"

text \<open>
  The addresses of the copies that \<open>deliver_copies\<close> appends to the inbox of \<open>u\<close>
  when the first copy is allocated at \<open>n\<close>: one for each place of \<open>u\<close> in the list.
\<close>

fun new_copies :: "string \<Rightarrow> string list \<Rightarrow> addr \<Rightarrow> addr list" where
  "new_copies u [] n = []"
| "new_copies u (r # rs) n = (if r = u then [n] else []) @ new_copies u rs (Suc n)"

text \<open>The state after both files were found missing: no mailbox, no message object.\<close>

definition blank :: message where
  "blank = \<lparr>msg_from = [], msg_to = [], subject = [], body = [], time = [], read = False\<rparr>"

definition initial_state :: state where
  "initial_state = \<lparr>heap = (\<lambda>_. blank), next_addr = 0, inboxes = Map.empty\<rparr>"

definition hello :: message where
  "hello = \<lparr>msg_from = ''alice'', msg_to = [''bob'', ''carol''], subject = ''Hi'', body = ''How are you?'',
            time = ''2024-05-01T10:00:00'', read = False\<rparr>"

text \<open>An inbox of two messages stored out of time order; the second was read before.\<close>

definition two_mails :: state where
  "two_mails =
     \<lparr>heap = (\<lambda>_. blank)(0 := hello\<lparr>time := ''2024-05-02T09:00:00''\<rparr>,
                          1 := hello\<lparr>time := ''2024-05-01T10:00:00'', read := True\<rparr>),
      next_addr = 2,
      inboxes = [''bob'' \<mapsto> \<lparr>inbox = [0, 1], drafts = [], sent = []\<rparr>]\<rparr>"

text \<open>An inbox of three unread messages.\<close>

definition three_mails :: state where
  "three_mails =
     \<lparr>heap = (\<lambda>_. blank)(0 := hello, 1 := hello\<lparr>msg_from := ''carol''\<rparr>, 2 := hello\<lparr>msg_from := ''dave''\<rparr>),
      next_addr = 3,
      inboxes = [''bob'' \<mapsto> \<lparr>inbox = [0, 1, 2], drafts = [], sent = []\<rparr>]\<rparr>"

text \<open>Two drafts of \<open>alice\<close>.\<close>

definition two_drafts :: state where
  "two_drafts =
     \<lparr>heap = (\<lambda>_. blank)(0 := hello, 1 := hello\<lparr>subject := ''Later''\<rparr>),
      next_addr = 2,
      inboxes = [''alice'' \<mapsto> \<lparr>inbox = [], drafts = [0, 1], sent = []\<rparr>]\<rparr>"

text \<open>An inbox where only the second message contains \<open>you\<close>.\<close>

definition lunch :: message where
  "lunch = \<lparr>msg_from = ''carol'', msg_to = [''bob''], subject = ''Lunch'', body = ''At noon'',
            time = ''2024-05-01T11:30:00'', read = False\<rparr>"

definition search_box :: state where
  "search_box =
     \<lparr>heap = (\<lambda>_. blank)(0 := lunch, 1 := hello),
      next_addr = 2,
      inboxes = [''bob'' \<mapsto> \<lparr>inbox = [0, 1], drafts = [], sent = []\<rparr>]\<rparr>"

text \<open>The test of \<open>search_emails\<close> on one message.\<close>

definition matches :: "string \<Rightarrow> message \<Rightarrow> bool" where
  "matches keyword m = (sublist keyword (lower (subject m)) \<or> sublist keyword (lower (body m)))"

text \<open>
  Notions for the round trip through JSON text: no dict of the value repeats a
  key; the number of nested scanner calls a value needs; the text of the items of
  a list or dict after the first indentation, up to the closing bracket.
\<close>

fun keys_distinct :: "py_value \<Rightarrow> bool" where
  "keys_distinct (PList xs) = list_all keys_distinct xs"
| "keys_distinct (PDict kvs) = (distinct (map fst kvs) \<and> list_all (\<lambda>(k, v). keys_distinct v) kvs)"
| "keys_distinct v = True"

fun cost :: "py_value \<Rightarrow> nat" where
  "cost (PList xs) = Suc (sum_list (map (\<lambda>x. Suc (cost x)) xs))"
| "cost (PDict kvs) = Suc (sum_list (map (\<lambda>(k, v). Suc (cost v)) kvs))"
| "cost v = 1"

fun items_text :: "nat \<Rightarrow> string list \<Rightarrow> string \<Rightarrow> string" where
  "items_text level [] tail = tail"
| "items_text level [x] tail = x @ tail"
| "items_text level (x # y # ys) tail = x @ '','' @ newline_indent level @ items_text level (y # ys) tail"


definition value_start :: "char \<Rightarrow> bool" where
  "value_start c = (\<not> json_ws c \<and> c \<noteq> CHR '']'' \<and> c \<noteq> CHR ''}'')"


definition member_text :: "nat \<Rightarrow> string \<times> py_value \<Rightarrow> string" where
  "member_text level kv = dump_str (fst kv) @ '': '' @ json_dumps level (snd kv)"


section \<open>Login\<close>

lemma login_loop_exhausted: "MAX_TRIES \<le> tries \<Longrightarrow> login_loop users tries inp = Inr None"
  by simp

lemma login_loop_fail:
  "\<not> attempt_correct users a \<Longrightarrow> tries < MAX_TRIES \<Longrightarrow>
   login_loop users tries (attempt_lines users a @ rest) = login_loop users (Suc tries) rest"
  by (cases a) (auto split: option.splits)

lemma login_loop_good:
  "attempt_correct users (u, p) \<Longrightarrow> tries < MAX_TRIES \<Longrightarrow>
   login_loop users tries (attempt_lines users (u, p) @ rest) = Inr (Some (strip u))"
  by auto

declare login_loop.simps [simp del]

lemma login_loop_attempts:
  "tries + length as \<le> MAX_TRIES \<Longrightarrow>
   login_loop users tries (concat (map (attempt_lines users) as) @ rest) =
     (case find (attempt_correct users) as of
        Some (u, p) \<Rightarrow> Inr (Some (strip u))
      | None \<Rightarrow> login_loop users (tries + length as) rest)"
proof (induction as arbitrary: tries)
  case Nil
  then show ?case by simp
next
  case (Cons a as)
  then have lt: "tries < MAX_TRIES" by simp
  show ?case
  proof (cases "attempt_correct users a")
    case True
    then show ?thesis
      using lt login_loop_good[of users "fst a" "snd a" tries]
      by (cases a) (simp del: attempt_lines.simps attempt_correct.simps)
  next
    case False
    then show ?thesis
      using lt Cons.prems Cons.IH[of "Suc tries"] login_loop_fail[of users a tries]
      by (simp del: attempt_lines.simps attempt_correct.simps cong: option.case_cong)
  qed
qed

text \<open>
  C3. Given at most three attempts on standard input (followed by any further
  lines), \<open>login\<close> returns the stripped user name of the first attempt whose user
  name is in the store with the typed password; when three attempts are there and
  none is correct, it returns \<open>None\<close>, whatever mix of unknown names and wrong
  passwords they are and whatever follows them.
\<close>

theorem login_first_correct_attempt:
  assumes "length as \<le> 3"
  shows "case find (attempt_correct users) as of
           Some (u, p) \<Rightarrow>
             login users (concat (map (attempt_lines users) as) @ rest) = Inr (Some (strip u))
         | None \<Rightarrow>
             length as = 3 \<longrightarrow>
             login users (concat (map (attempt_lines users) as) @ rest) = Inr None"
  using assms login_loop_attempts[of 0 as users rest] login_loop_exhausted[of 3 users rest]
  by (auto simp: login_def MAX_TRIES_def split: option.splits)

theorem login_first_correct_attempt_witness:
  "length [(''bob'', ''x''), ('' alice'', ''wrong''), (''alice '', ''pw '')] \<le> (3::nat) \<and>
   login [''alice'' \<mapsto> ''pw''] [''bob'', '' alice'', ''wrong'', ''alice '', ''pw ''] = Inr (Some ''alice'') \<and>
   length [(''bob'', ''x''), (''alice'', ''wrong''), (''carol'', ''pw'')] = (3::nat) \<and>
   login [''alice'' \<mapsto> ''pw''] [''bob'', ''alice'', ''wrong'', ''carol'', ''alice'', ''pw''] = Inr None"
  using login_first_correct_attempt
          [of "[(''bob'', ''x''), ('' alice'', ''wrong''), (''alice '', ''pw '')]"
              "[''alice'' \<mapsto> ''pw'']" "[]"]
        login_first_correct_attempt
          [of "[(''bob'', ''x''), (''alice'', ''wrong''), (''carol'', ''pw'')]"
              "[''alice'' \<mapsto> ''pw'']" "[''alice'', ''pw'']"]
  by (simp add: strip_def isspace_def)

section \<open>Sending\<close>

lemma length_new_copies: "length (new_copies u rs n) = count_list rs u"
  by (induction rs arbitrary: n) auto

lemma set_new_copies: "set (new_copies u rs n) = {n + i | i. i < length rs \<and> rs ! i = u}"
proof (induction rs arbitrary: n)
  case Nil
  then show ?case by simp
next
  case (Cons r rs)
  have "{n + i | i. i < length (r # rs) \<and> (r # rs) ! i = u} =
        (if r = u then {n} else {}) \<union> {Suc n + i | i. i < length rs \<and> rs ! i = u}"
    (is "?L = ?R")
  proof
    show "?L \<subseteq> ?R"
    proof
      fix a assume "a \<in> ?L"
      then obtain i where i: "a = n + i" "i < length (r # rs)" "(r # rs) ! i = u" by blast
      show "a \<in> ?R"
      proof (cases i)
        case 0
        with i show ?thesis by simp
      next
        case (Suc j)
        with i have "a = Suc n + j" "j < length rs" "rs ! j = u" by simp_all
        then show ?thesis by blast
      qed
    qed
    show "?R \<subseteq> ?L"
    proof
      fix a assume "a \<in> ?R"
      then consider "r = u" "a = n" | j where "a = Suc n + j" "j < length rs" "rs ! j = u"
        by (auto split: if_splits)
      then show "a \<in> ?L"
      proof cases
        case 1
        then have "a = n + 0 \<and> 0 < length (r # rs) \<and> (r # rs) ! 0 = u" by simp
        then show ?thesis by blast
      next
        case 2
        then have "a = n + Suc j \<and> Suc j < length (r # rs) \<and> (r # rs) ! Suc j = u" by simp
        then show ?thesis by blast
      qed
    qed
  qed
  then show ?case using Cons.IH[of "Suc n"] by auto
qed

lemma new_copies_range: "a \<in> set (new_copies u rs n) \<Longrightarrow> n \<le> a \<and> a < n + length rs"
  by (auto simp: set_new_copies)

lemma new_copies_disjoint: "u \<noteq> v \<Longrightarrow> set (new_copies u rs n) \<inter> set (new_copies v rs n) = {}"
  by (auto simp: set_new_copies)

lemma distinct_new_copies: "distinct (new_copies u rs n)"
proof (induction rs arbitrary: n)
  case Nil
  then show ?case by simp
next
  case (Cons r rs)
  have "n \<notin> set (new_copies u rs (Suc n))"
    using new_copies_range[of n u rs "Suc n"] by auto
  then show ?case using Cons.IH[of "Suc n"] by simp
qed

lemma ensure_user_box_simps:
  "heap (ensure_user_box u st) = heap st"
  "next_addr (ensure_user_box u st) = next_addr st"
  "inboxes (ensure_user_box u st) u \<noteq> None"
  "inbox_of (ensure_user_box u st) v = inbox_of st v"
  "drafts_of (ensure_user_box u st) v = drafts_of st v"
  "sent_of (ensure_user_box u st) v = sent_of st v"
  "dom (inboxes (ensure_user_box u st)) = insert u (dom (inboxes st))"
  by (auto simp: ensure_user_box_def inbox_of_def drafts_of_def sent_of_def split: option.splits)

lemma append_inbox_copy_ok:
  assumes "inboxes st r \<noteq> None"
  shows "\<exists>st'. append_inbox_copy r email st = Inr ((), st') \<and>
           next_addr st' = Suc (next_addr st) \<and>
           heap st' = (heap st)(next_addr st := heap st email) \<and>
           dom (inboxes st') = dom (inboxes st) \<and>
           (\<forall>u. inbox_of st' u = inbox_of st u @ (if r = u then [next_addr st] else [])) \<and>
           (\<forall>u. drafts_of st' u = drafts_of st u) \<and>
           (\<forall>u. sent_of st' u = sent_of st u)"
  using assms
  by (auto simp: append_inbox_copy_def alloc_def inbox_of_def drafts_of_def sent_of_def
           split: option.splits)

lemma deliver_copies_ok:
  "\<exists>st'. deliver_copies email rs st = Inr ((), st') \<and>
      next_addr st' = next_addr st + length rs \<and>
      dom (inboxes st') = dom (inboxes st) \<union> set rs \<and>
      (\<forall>u. inbox_of st' u = inbox_of st u @ new_copies u rs (next_addr st)) \<and>
      (\<forall>u. drafts_of st' u = drafts_of st u) \<and>
      (\<forall>u. sent_of st' u = sent_of st u) \<and>
      (email < next_addr st \<longrightarrow>
         (\<forall>a. heap st' a =
            (if next_addr st \<le> a \<and> a < next_addr st + length rs then heap st email else heap st a)))"
proof (induction rs arbitrary: st)
  case Nil
  then show ?case by auto
next
  case (Cons r rs)
  let ?st1 = "ensure_user_box r st"
  obtain st2 where st2: "append_inbox_copy r email ?st1 = Inr ((), st2)"
      "next_addr st2 = Suc (next_addr st)"
      "heap st2 = (heap st)(next_addr st := heap st email)"
      "dom (inboxes st2) = insert r (dom (inboxes st))"
      "\<forall>u. inbox_of st2 u = inbox_of st u @ (if r = u then [next_addr st] else [])"
      "\<forall>u. drafts_of st2 u = drafts_of st u"
      "\<forall>u. sent_of st2 u = sent_of st u"
    using append_inbox_copy_ok[of ?st1 r email] by (auto simp: ensure_user_box_simps)
  obtain st' where st': "deliver_copies email rs st2 = Inr ((), st')"
      "next_addr st' = next_addr st2 + length rs"
      "dom (inboxes st') = dom (inboxes st2) \<union> set rs"
      "\<forall>u. inbox_of st' u = inbox_of st2 u @ new_copies u rs (next_addr st2)"
      "\<forall>u. drafts_of st' u = drafts_of st2 u"
      "\<forall>u. sent_of st' u = sent_of st2 u"
      "email < next_addr st2 \<longrightarrow>
         (\<forall>a. heap st' a =
            (if next_addr st2 \<le> a \<and> a < next_addr st2 + length rs then heap st2 email else heap st2 a))"
    using Cons.IH[of st2] by blast
  have "deliver_copies email (r # rs) st = Inr ((), st')"
    using st2(1) st'(1) by simp
  moreover have "next_addr st' = next_addr st + length (r # rs)"
    using st2(2) st'(2) by simp
  moreover have "dom (inboxes st') = dom (inboxes st) \<union> set (r # rs)"
    using st2(4) st'(3) by auto
  moreover have "\<forall>u. inbox_of st' u = inbox_of st u @ new_copies u (r # rs) (next_addr st)"
    using st2(2,5) st'(4) by simp
  moreover have "\<forall>u. drafts_of st' u = drafts_of st u" using st2(6) st'(5) by simp
  moreover have "\<forall>u. sent_of st' u = sent_of st u" using st2(7) st'(6) by simp
  moreover have "email < next_addr st \<longrightarrow>
         (\<forall>a. heap st' a =
            (if next_addr st \<le> a \<and> a < next_addr st + length (r # rs) then heap st email else heap st a))"
    using st2(2,3) st'(7) by auto
  ultimately show ?case by blast
qed


lemma alloc_simps:
  "fst (alloc m st) = next_addr st"
  "next_addr (snd (alloc m st)) = Suc (next_addr st)"
  "heap (snd (alloc m st)) = (heap st)(next_addr st := m)"
  "inboxes (snd (alloc m st)) = inboxes st"
  "inbox_of (snd (alloc m st)) u = inbox_of st u"
  "drafts_of (snd (alloc m st)) u = drafts_of st u"
  "sent_of (snd (alloc m st)) u = sent_of st u"
  by (simp_all add: alloc_def inbox_of_def drafts_of_def sent_of_def)

lemma append_sent_ok:
  assumes "inboxes st s \<noteq> None"
  shows "\<exists>st'. append_sent s email st = Inr ((), st') \<and>
           next_addr st' = next_addr st \<and> heap st' = heap st \<and>
           dom (inboxes st') = dom (inboxes st) \<and>
           (\<forall>u. inbox_of st' u = inbox_of st u) \<and>
           (\<forall>u. drafts_of st' u = drafts_of st u) \<and>
           (\<forall>u. sent_of st' u = sent_of st u @ (if u = s then [email] else []))"
  using assms
  by (auto simp: append_sent_def inbox_of_def drafts_of_def sent_of_def split: option.splits)

lemma append_drafts_ok:
  assumes "inboxes st s \<noteq> None"
  shows "\<exists>st'. append_drafts s email st = Inr ((), st') \<and>
           next_addr st' = next_addr st \<and> heap st' = heap st \<and>
           dom (inboxes st') = dom (inboxes st) \<and>
           (\<forall>u. inbox_of st' u = inbox_of st u) \<and>
           (\<forall>u. drafts_of st' u = drafts_of st u @ (if u = s then [email] else [])) \<and>
           (\<forall>u. sent_of st' u = sent_of st u)"
  using assms
  by (auto simp: append_drafts_def inbox_of_def drafts_of_def sent_of_def split: option.splits)

lemma send_email_send:
  "\<exists>st'. send_email sender (m, rs, ''send'') st0 = Inr (EmailSentTo rs, st') \<and>
      next_addr st' = Suc (next_addr st0) + length rs \<and>
      dom (inboxes st') = dom (inboxes st0) \<union> {sender} \<union> set rs \<and>
      (\<forall>u. inbox_of st' u = inbox_of st0 u @ new_copies u rs (Suc (next_addr st0))) \<and>
      (\<forall>u. drafts_of st' u = drafts_of st0 u) \<and>
      (\<forall>u. sent_of st' u = sent_of st0 u @ (if u = sender then [next_addr st0] else [])) \<and>
      (\<forall>a. heap st' a =
          (if next_addr st0 \<le> a \<and> a < Suc (next_addr st0) + length rs then m else heap st0 a))"
proof -
  define e where "e = next_addr st0"
  define st1 where "st1 = snd (alloc m st0)"
  define st where "st = ensure_user_box sender st1"
  have a: "alloc m st0 = (e, st1)" by (simp add: alloc_def e_def st1_def)
  have st1: "next_addr st1 = Suc e" "heap st1 = (heap st0)(e := m)" "inboxes st1 = inboxes st0"
      "\<forall>u. inbox_of st1 u = inbox_of st0 u" "\<forall>u. drafts_of st1 u = drafts_of st0 u"
      "\<forall>u. sent_of st1 u = sent_of st0 u"
    by (simp_all add: st1_def alloc_simps e_def)
  have st: "next_addr st = Suc e" "heap st = (heap st0)(e := m)"
      "dom (inboxes st) = insert sender (dom (inboxes st0))"
      "\<forall>u. inbox_of st u = inbox_of st0 u" "\<forall>u. drafts_of st u = drafts_of st0 u"
      "\<forall>u. sent_of st u = sent_of st0 u"
    using st1 by (simp_all add: st_def ensure_user_box_simps)
  obtain st2 where st2: "deliver_copies e rs st = Inr ((), st2)"
      "next_addr st2 = next_addr st + length rs"
      "dom (inboxes st2) = dom (inboxes st) \<union> set rs"
      "\<forall>u. inbox_of st2 u = inbox_of st u @ new_copies u rs (next_addr st)"
      "\<forall>u. drafts_of st2 u = drafts_of st u"
      "\<forall>u. sent_of st2 u = sent_of st u"
      "e < next_addr st \<longrightarrow>
         (\<forall>a. heap st2 a =
            (if next_addr st \<le> a \<and> a < next_addr st + length rs then heap st e else heap st a))"
    using deliver_copies_ok[of e rs st] by blast
  have "sender \<in> dom (inboxes st2)" using st2(3) st(3) by simp
  then have "inboxes st2 sender \<noteq> None" by blast
  then obtain st3 where st3: "append_sent sender e st2 = Inr ((), st3)"
      "next_addr st3 = next_addr st2" "heap st3 = heap st2"
      "dom (inboxes st3) = dom (inboxes st2)"
      "\<forall>u. inbox_of st3 u = inbox_of st2 u"
      "\<forall>u. drafts_of st3 u = drafts_of st2 u"
      "\<forall>u. sent_of st3 u = sent_of st2 u @ (if u = sender then [e] else [])"
    using append_sent_ok[of st2 sender e] by blast
  have "send_email sender (m, rs, ''send'') st0 = Inr (EmailSentTo rs, st3)"
    using a st2(1) st3(1) by (simp add: send_email_def st_def)
  moreover have "next_addr st3 = Suc (next_addr st0) + length rs"
    using st3(2) st2(2) st(1) by (simp add: e_def)
  moreover have "dom (inboxes st3) = dom (inboxes st0) \<union> {sender} \<union> set rs"
    using st3(4) st2(3) st(3) by auto
  moreover have "\<forall>u. inbox_of st3 u = inbox_of st0 u @ new_copies u rs (Suc (next_addr st0))"
    using st3(5) st2(4) st(1,4) by (simp add: e_def)
  moreover have "\<forall>u. drafts_of st3 u = drafts_of st0 u"
    using st3(6) st2(5) st(5) by simp
  moreover have "\<forall>u. sent_of st3 u = sent_of st0 u @ (if u = sender then [next_addr st0] else [])"
    using st3(7) st2(6) st(6) by (simp add: e_def)
  moreover have "\<forall>a. heap st3 a =
          (if next_addr st0 \<le> a \<and> a < Suc (next_addr st0) + length rs then m else heap st0 a)"
    using st3(3) st2(7) st(1,2) by (auto simp: e_def)
  ultimately show ?thesis by blast
qed

lemma send_email_draft:
  "\<exists>st'. send_email sender (m, rs, ''draft'') st0 = Inr (SavedToDrafts, st') \<and>
      next_addr st' = Suc (next_addr st0) \<and>
      dom (inboxes st') = insert sender (dom (inboxes st0)) \<and>
      (\<forall>u. inbox_of st' u = inbox_of st0 u) \<and>
      (\<forall>u. drafts_of st' u = drafts_of st0 u @ (if u = sender then [next_addr st0] else [])) \<and>
      (\<forall>u. sent_of st' u = sent_of st0 u) \<and>
      heap st' = (heap st0)(next_addr st0 := m)"
proof -
  define st where "st = ensure_user_box sender (snd (alloc m st0))"
  have st: "next_addr st = Suc (next_addr st0)" "heap st = (heap st0)(next_addr st0 := m)"
      "dom (inboxes st) = insert sender (dom (inboxes st0))"
      "\<forall>u. inbox_of st u = inbox_of st0 u" "\<forall>u. drafts_of st u = drafts_of st0 u"
      "\<forall>u. sent_of st u = sent_of st0 u" "inboxes st sender \<noteq> None"
    by (simp_all add: st_def ensure_user_box_simps alloc_simps)
  obtain st2 where st2: "append_drafts sender (next_addr st0) st = Inr ((), st2)"
      "next_addr st2 = next_addr st" "heap st2 = heap st"
      "dom (inboxes st2) = dom (inboxes st)"
      "\<forall>u. inbox_of st2 u = inbox_of st u"
      "\<forall>u. drafts_of st2 u = drafts_of st u @ (if u = sender then [next_addr st0] else [])"
      "\<forall>u. sent_of st2 u = sent_of st u"
    using append_drafts_ok[OF st(7), of "next_addr st0"] by blast
  have "send_email sender (m, rs, ''draft'') st0 = Inr (SavedToDrafts, st2)"
    using st2(1) by (simp add: send_email_def st_def alloc_def)
  then show ?thesis using st st2 by simp
qed

lemma send_email_invalid:
  assumes "action \<noteq> ''send''" "action \<noteq> ''draft''"
  shows "send_email sender (m, rs, action) st0 =
           Inr (InvalidOption,
                ensure_user_box sender
                  (st0\<lparr>heap := (heap st0)(next_addr st0 := m), next_addr := Suc (next_addr st0)\<rparr>))"
  using assms by (simp add: send_email_def alloc_def)


lemma mark_read_other: "a \<noteq> c \<Longrightarrow> mark_read c h a = h a"
  by (simp add: mark_read_def)

text \<open>
  C1 (amended). Sending appends exactly one entry, the message object itself, to
  the sender's sent list, and to the inbox of every user one new copy of the
  message for each place that user has in the recipient list (exactly one for a
  recipient listed once); the mailboxes of the sender and of the recipients exist
  afterwards. The copies are distinct objects: setting the read flag on one
  recipient's copy changes neither the sent copy nor the copy of any other
  recipient.
\<close>

theorem send_email_independent_copies:
  "\<exists>st'. send_email sender (m, rs, ''send'') st0 = Inr (EmailSentTo rs, st') \<and>
     sent_of st' sender = sent_of st0 sender @ [next_addr st0] \<and>
     heap st' (next_addr st0) = m \<and>
     inboxes st' sender \<noteq> None \<and>
     (\<forall>u. inbox_of st' u = inbox_of st0 u @ new_copies u rs (Suc (next_addr st0)) \<and>
          length (new_copies u rs (Suc (next_addr st0))) = count_list rs u \<and>
          distinct (new_copies u rs (Suc (next_addr st0))) \<and>
          (u \<in> set rs \<longrightarrow> inboxes st' u \<noteq> None) \<and>
          (\<forall>c \<in> set (new_copies u rs (Suc (next_addr st0))).
             heap st' c = m \<and>
             mark_read c (heap st') (next_addr st0) = heap st' (next_addr st0) \<and>
             (\<forall>v. v \<noteq> u \<longrightarrow>
                (\<forall>c' \<in> set (new_copies v rs (Suc (next_addr st0))).
                   mark_read c (heap st') c' = heap st' c'))))"
proof -
  let ?e = "next_addr st0"
  obtain st' where st': "send_email sender (m, rs, ''send'') st0 = Inr (EmailSentTo rs, st')"
      "dom (inboxes st') = dom (inboxes st0) \<union> {sender} \<union> set rs"
      "\<forall>u. inbox_of st' u = inbox_of st0 u @ new_copies u rs (Suc ?e)"
      "\<forall>u. sent_of st' u = sent_of st0 u @ (if u = sender then [?e] else [])"
      "\<forall>a. heap st' a = (if ?e \<le> a \<and> a < Suc ?e + length rs then m else heap st0 a)"
    using send_email_send[of sender m rs st0] by blast
  have dom: "\<And>u. u = sender \<or> u \<in> set rs \<Longrightarrow> inboxes st' u \<noteq> None"
    using st'(2) by blast
  have copy: "heap st' c = m \<and> c \<noteq> ?e" if "c \<in> set (new_copies u rs (Suc ?e))" for c u
    using new_copies_range[OF that] st'(5) by simp
  have other: "c' \<noteq> c"
    if "v \<noteq> u" "c \<in> set (new_copies u rs (Suc ?e))" "c' \<in> set (new_copies v rs (Suc ?e))"
    for u v c c'
    using new_copies_disjoint[OF that(1), of rs "Suc ?e"] that(2,3) by blast
  have "sent_of st' sender = sent_of st0 sender @ [?e]" using st'(4) by simp
  moreover have "heap st' ?e = m" using st'(5) by simp
  moreover have "inboxes st' sender \<noteq> None" using dom by simp
  moreover have "inbox_of st' u = inbox_of st0 u @ new_copies u rs (Suc ?e)" for u
    using st'(3) by simp
  moreover have "u \<in> set rs \<longrightarrow> inboxes st' u \<noteq> None" for u using dom by simp
  moreover have "\<forall>c \<in> set (new_copies u rs (Suc ?e)).
             heap st' c = m \<and>
             mark_read c (heap st') ?e = heap st' ?e \<and>
             (\<forall>v. v \<noteq> u \<longrightarrow>
                (\<forall>c' \<in> set (new_copies v rs (Suc ?e)). mark_read c (heap st') c' = heap st' c'))" for u
    using copy other by (metis mark_read_other)
  ultimately show ?thesis
    using st'(1) length_new_copies distinct_new_copies by blast
qed


theorem send_email_independent_copies_witness:
  "\<exists>st'. send_email ''alice'' (hello, [''bob'', ''carol''], ''send'') initial_state =
            Inr (EmailSentTo [''bob'', ''carol''], st') \<and>
     sent_of st' ''alice'' = [0] \<and> inbox_of st' ''bob'' = [1] \<and> inbox_of st' ''carol'' = [2] \<and>
     ''bob'' \<in> set [''bob'', ''carol''] \<and> inboxes st' ''bob'' \<noteq> None \<and>
     (1::nat) \<in> set (new_copies ''bob'' [''bob'', ''carol''] 1) \<and> ''carol'' \<noteq> ''bob'' \<and>
     (2::nat) \<in> set (new_copies ''carol'' [''bob'', ''carol''] 1) \<and>
     heap st' 0 = hello \<and> heap st' 1 = hello \<and> heap st' 2 = hello \<and>
     mark_read 1 (heap st') 0 = hello \<and> mark_read 1 (heap st') 2 = hello \<and>
     read (mark_read 1 (heap st') 1)"
proof -
  obtain st' where st':
    "send_email ''alice'' (hello, [''bob'', ''carol''], ''send'') initial_state =
       Inr (EmailSentTo [''bob'', ''carol''], st')"
    "sent_of st' ''alice'' = sent_of initial_state ''alice'' @ [next_addr initial_state]"
    "heap st' (next_addr initial_state) = hello"
    "\<forall>u. inbox_of st' u =
           inbox_of initial_state u @ new_copies u [''bob'', ''carol''] (Suc (next_addr initial_state)) \<and>
         length (new_copies u [''bob'', ''carol''] (Suc (next_addr initial_state))) =
           count_list [''bob'', ''carol''] u \<and>
         distinct (new_copies u [''bob'', ''carol''] (Suc (next_addr initial_state))) \<and>
         (u \<in> set [''bob'', ''carol''] \<longrightarrow> inboxes st' u \<noteq> None) \<and>
         (\<forall>c \<in> set (new_copies u [''bob'', ''carol''] (Suc (next_addr initial_state))).
            heap st' c = hello \<and>
            mark_read c (heap st') (next_addr initial_state) = heap st' (next_addr initial_state) \<and>
            (\<forall>v. v \<noteq> u \<longrightarrow>
               (\<forall>c' \<in> set (new_copies v [''bob'', ''carol''] (Suc (next_addr initial_state))).
                  mark_read c (heap st') c' = heap st' c')))"
    using send_email_independent_copies[of "''alice''" hello "[''bob'', ''carol'']" initial_state]
    by blast
  have n: "next_addr initial_state = 0" "inbox_of initial_state u = []" "sent_of initial_state u = []" for u
    by (simp_all add: initial_state_def inbox_of_def sent_of_def)
  have bob: "new_copies ''bob'' [''bob'', ''carol''] (Suc 0) = [1]"
    and carol: "new_copies ''carol'' [''bob'', ''carol''] (Suc 0) = [2]"
    by simp_all
  from st'(4) have b: "inbox_of st' ''bob'' = [1]" "inboxes st' ''bob'' \<noteq> None" "heap st' 1 = hello"
      "mark_read 1 (heap st') 0 = heap st' 0"
      "\<forall>v. v \<noteq> ''bob'' \<longrightarrow> (\<forall>c' \<in> set (new_copies v [''bob'', ''carol''] (Suc 0)).
                  mark_read 1 (heap st') c' = heap st' c')"
    using spec[OF st'(4), of "''bob''"] by (simp_all add: n bob)
  from b(5) have b2: "mark_read 1 (heap st') 2 = heap st' 2"
    using spec[OF b(5), of "''carol''"] by (simp add: carol numeral_2_eq_2)
  have c: "inbox_of st' ''carol'' = [2]" "heap st' 2 = hello"
    using spec[OF st'(4), of "''carol''"] by (simp_all add: n carol numeral_2_eq_2)
  show ?thesis
    using st'(1,2,3) b b2 c by (simp add: n mark_read_def numeral_2_eq_2)
qed

text \<open>
  C1 as stated fails for a recipient listed twice: the inbox of \<open>bob\<close> gains two
  entries, not exactly one.
\<close>

theorem send_email_duplicate_recipient_counterexample:
  "\<not> isl (send_email ''alice'' (hello, [''bob'', ''bob''], ''send'') initial_state) \<and>
   inbox_of initial_state ''bob'' = [] \<and>
   inbox_of (snd (projr (send_email ''alice'' (hello, [''bob'', ''bob''], ''send'') initial_state))) ''bob''
     = [1, 2]"
  by (simp add: send_email_def alloc_def initial_state_def ensure_user_box_def
        append_inbox_copy_def append_sent_def inbox_of_def)

text \<open>
  What \<open>compose_email\<close> makes of the recipients line: a name typed twice stays
  twice in the list, and an empty line gives the empty list.
\<close>

lemma compose_email_recipients:
  "fst (snd (compose_email ''alice'' ''bob, bob'' s b t a)) = [''bob'', ''bob'']"
  "fst (snd (compose_email ''alice'' '''' s b t a)) = []"
  by (simp_all add: compose_email_def strip_def isspace_def Let_def)



text \<open>
  C6 (amended). With an action that is neither \<open>send\<close> nor \<open>draft\<close> the report is
  \<open>Invalid option\<close>, no list of any mailbox is appended to and no existing message
  object changes; the only change to the mailbox store is that the sender's
  mailbox, when absent, is created empty by \<open>ensure_user_box\<close>.
\<close>

theorem send_email_invalid_action:
  assumes "action \<noteq> ''send''" and "action \<noteq> ''draft''"
  shows "\<exists>st'. send_email sender (m, rs, action) st0 = Inr (InvalidOption, st') \<and>
           inboxes st' = inboxes (ensure_user_box sender st0) \<and>
           (inboxes st0 sender \<noteq> None \<longrightarrow> inboxes st' = inboxes st0) \<and>
           (inboxes st0 sender = None \<longrightarrow>
              inboxes st' = (inboxes st0)(sender \<mapsto> \<lparr>inbox = [], drafts = [], sent = []\<rparr>)) \<and>
           (\<forall>u. inbox_of st' u = inbox_of st0 u \<and> drafts_of st' u = drafts_of st0 u \<and>
                sent_of st' u = sent_of st0 u) \<and>
           (\<forall>a. a < next_addr st0 \<longrightarrow> heap st' a = heap st0 a)"
  using send_email_invalid[OF assms, of sender m rs st0]
  by (auto simp: ensure_user_box_def inbox_of_def drafts_of_def sent_of_def split: option.splits)

theorem send_email_invalid_action_witness:
  "''maybe'' \<noteq> ''send'' \<and> ''maybe'' \<noteq> ''draft'' \<and>
   inboxes (ensure_user_box ''alice'' initial_state) ''alice'' \<noteq> None \<and> (0::nat) < 1 \<and>
   (\<exists>st'. send_email ''alice'' (hello, [''bob''], ''maybe'')
             (ensure_user_box ''alice'' initial_state\<lparr>next_addr := 1\<rparr>) = Inr (InvalidOption, st') \<and>
          inboxes st' = inboxes (ensure_user_box ''alice'' initial_state) \<and>
          heap st' 0 = blank)"
  using send_email_invalid_action
          [of "''maybe''" "''alice''" hello "[''bob'']"
              "ensure_user_box ''alice'' initial_state\<lparr>next_addr := 1\<rparr>"]
  by (auto simp: ensure_user_box_def initial_state_def)

text \<open>
  C6 as stated fails when the sender has no mailbox yet: the invalid action still
  creates it.
\<close>

theorem send_email_invalid_action_counterexample:
  "send_email ''alice'' (hello, [''bob''], ''maybe'') initial_state =
     Inr (InvalidOption,
          snd (projr (send_email ''alice'' (hello, [''bob''], ''maybe'') initial_state))) \<and>
   inboxes initial_state ''alice'' = None \<and>
   inboxes (snd (projr (send_email ''alice'' (hello, [''bob''], ''maybe'') initial_state))) ''alice''
     = Some \<lparr>inbox = [], drafts = [], sent = []\<rparr>"
  by (simp add: send_email_def alloc_def initial_state_def ensure_user_box_def)


section \<open>Listing the inbox\<close>

lemma show_inbox_Cons:
  "show_inbox idx (x # xs) h =
     ((idx, \<not> read (h x), h x) # fst (show_inbox (Suc idx) xs (mark_read x h)),
      snd (show_inbox (Suc idx) xs (mark_read x h)))"
  by (simp add: Let_def split: prod.splits)

declare show_inbox.simps(2) [simp del]

lemma show_inbox_heap:
  "snd (show_inbox idx as h) a = (if a \<in> set as then (h a)\<lparr>read := True\<rparr> else h a)"
proof (induction as arbitrary: idx h)
  case Nil
  then show ?case by simp
next
  case (Cons x xs)
  show ?case
    by (auto simp: show_inbox_Cons Cons.IH mark_read_def)
qed

lemma show_inbox_out:
  "map (\<lambda>(i, new, m). m\<lparr>read := True\<rparr>) (fst (show_inbox idx as h)) =
     map (\<lambda>a. (h a)\<lparr>read := True\<rparr>) as"
proof (induction as arbitrary: idx h)
  case Nil
  then show ?case by simp
next
  case (Cons x xs)
  have "map (\<lambda>a. (mark_read x h a)\<lparr>read := True\<rparr>) xs = map (\<lambda>a. (h a)\<lparr>read := True\<rparr>) xs"
    by (simp add: mark_read_def)
  then show ?case
    by (simp add: show_inbox_Cons Cons.IH)
qed

lemma show_inbox_idx:
  "map fst (fst (show_inbox idx as h)) = [idx..<idx + length as]"
proof (induction as arbitrary: idx h)
  case Nil
  then show ?case by simp
next
  case (Cons x xs)
  have "[idx..<idx + length (x # xs)] = idx # [Suc idx..<Suc idx + length xs]"
    by (simp add: upt_conv_Cons del: upt_Suc)
  then show ?case
    by (simp add: show_inbox_Cons Cons.IH del: upt_Suc)
qed

lemma show_inbox_time:
  "map (\<lambda>(i, new, m). time m) (fst (show_inbox idx as h)) = map (\<lambda>a. time (h a)) as"
proof -
  have "map time (map (\<lambda>(i, new, m). m\<lparr>read := True\<rparr>) (fst (show_inbox idx as h))) =
        map time (map (\<lambda>a. (h a)\<lparr>read := True\<rparr>) as)"
    by (simp only: show_inbox_out)
  then show ?thesis by (simp add: comp_def case_prod_unfold)
qed

lemma view_inbox_ok:
  "\<exists>out st'. view_inbox username st0 = Inr (out, st') \<and>
     inboxes st' = inboxes (ensure_user_box username st0) \<and>
     next_addr st' = next_addr st0 \<and>
     (\<forall>a. heap st' a = (if a \<in> set (inbox_of st0 username) then (heap st0 a)\<lparr>read := True\<rparr> else heap st0 a)) \<and>
     map (\<lambda>(i, new, m). m\<lparr>read := True\<rparr>) out =
       map (\<lambda>a. (heap st0 a)\<lparr>read := True\<rparr>) (sort_key (\<lambda>a. time (heap st0 a)) (inbox_of st0 username)) \<and>
     map (\<lambda>(i, new, m). time m) out =
       map (\<lambda>a. time (heap st0 a)) (sort_key (\<lambda>a. time (heap st0 a)) (inbox_of st0 username)) \<and>
     map fst out = [0..<length (inbox_of st0 username)]"
proof -
  let ?st = "ensure_user_box username st0"
  obtain mb where mb: "inboxes ?st username = Some mb"
    using ensure_user_box_simps(3)[of username st0] by blast
  have ib: "inbox mb = inbox_of st0 username"
    using ensure_user_box_simps(4)[of username st0 username] mb by (simp add: inbox_of_def)
  let ?xs = "inbox_of st0 username"
  let ?s = "sort_key (\<lambda>a. time (heap st0 a)) ?xs"
  show ?thesis
  proof (cases "?xs = []")
    case True
    then have "view_inbox username st0 = Inr ([], ?st)"
      using mb ib by (simp add: view_inbox_def)
    then show ?thesis using True by (simp add: ensure_user_box_simps)
  next
    case False
    let ?r = "show_inbox 0 ?s (heap st0)"
    have v: "view_inbox username st0 = Inr (fst ?r, ?st\<lparr>heap := snd ?r\<rparr>)"
      using mb ib False by (simp add: view_inbox_def ensure_user_box_simps case_prod_unfold Let_def)
    show ?thesis
      unfolding v
      by (simp add: ensure_user_box_simps show_inbox_heap show_inbox_out show_inbox_time show_inbox_idx)
  qed
qed


text \<open>
  C2. \<open>view_inbox\<close> prints the messages of the user's inbox in the order of the
  stable sort by their \<open>time\<close> strings, so by non-decreasing time, numbered from 0.
  Afterwards the inbox holds the same objects in the same order (and drafts and
  sent are as before), every message of the inbox has \<open>read = True\<close> and is
  otherwise as it was, and no other message object has changed.
\<close>

theorem view_inbox_sorted_and_read:
  "\<exists>out st'. view_inbox username st0 = Inr (out, st') \<and>
     sorted (map (\<lambda>(i, new, m). time m) out) \<and>
     map fst out = [0..<length (inbox_of st0 username)] \<and>
     (\<exists>as. as = sort_key (\<lambda>a. time (heap st0 a)) (inbox_of st0 username) \<and>
           (\<forall>k. filter (\<lambda>a. time (heap st0 a) = k) as =
                filter (\<lambda>a. time (heap st0 a) = k) (inbox_of st0 username)) \<and>
           map (\<lambda>(i, new, m). m\<lparr>read := True\<rparr>) out = map (\<lambda>a. (heap st0 a)\<lparr>read := True\<rparr>) as) \<and>
     inbox_of st' username = inbox_of st0 username \<and>
     drafts_of st' username = drafts_of st0 username \<and>
     sent_of st' username = sent_of st0 username \<and>
     (\<forall>a \<in> set (inbox_of st' username).
        read (heap st' a) \<and> heap st' a = (heap st0 a)\<lparr>read := True\<rparr>) \<and>
     (\<forall>a. a \<notin> set (inbox_of st0 username) \<longrightarrow> heap st' a = heap st0 a)"
proof -
  let ?xs = "inbox_of st0 username"
  let ?key = "\<lambda>a. time (heap st0 a)"
  obtain out st' where v: "view_inbox username st0 = Inr (out, st')"
      "inboxes st' = inboxes (ensure_user_box username st0)"
      "\<forall>a. heap st' a = (if a \<in> set ?xs then (heap st0 a)\<lparr>read := True\<rparr> else heap st0 a)"
      "map (\<lambda>(i, new, m). m\<lparr>read := True\<rparr>) out =
         map (\<lambda>a. (heap st0 a)\<lparr>read := True\<rparr>) (sort_key ?key ?xs)"
      "map (\<lambda>(i, new, m). time m) out = map ?key (sort_key ?key ?xs)"
      "map fst out = [0..<length ?xs]"
    using view_inbox_ok[of username st0] by blast
  have same: "inbox_of st' u = inbox_of st0 u" "drafts_of st' u = drafts_of st0 u"
      "sent_of st' u = sent_of st0 u" for u
    using v(2) ensure_user_box_simps(4,5,6)[of username st0 u]
    by (simp_all add: inbox_of_def drafts_of_def sent_of_def)
  have "sorted (map (\<lambda>(i, new, m). time m) out)"
    unfolding v(5) by (rule sorted_sort_key)
  moreover have "\<forall>k. filter (\<lambda>a. ?key a = k) (sort_key ?key ?xs) = filter (\<lambda>a. ?key a = k) ?xs"
    by (simp add: sort_key_stable)
  moreover have "\<forall>a \<in> set (inbox_of st' username).
        read (heap st' a) \<and> heap st' a = (heap st0 a)\<lparr>read := True\<rparr>"
    using v(3) same(1) by simp
  moreover have "\<forall>a. a \<notin> set ?xs \<longrightarrow> heap st' a = heap st0 a"
    using v(3) by simp
  ultimately show ?thesis
    using v(1,4,6) same by blast
qed

lemma two_mails_facts:
  "inbox_of two_mails ''bob'' = [0, 1]"
  "heap two_mails 0 = hello\<lparr>time := ''2024-05-02T09:00:00''\<rparr>"
  "heap two_mails (Suc 0) = hello\<lparr>time := ''2024-05-01T10:00:00'', read := True\<rparr>"
  "heap two_mails 5 = blank"
  by (simp_all add: two_mails_def inbox_of_def)

lemma two_mails_sorted:
  "sort_key (\<lambda>a. time (heap two_mails a)) [0, 1] = [1, 0]"
  by (simp add: two_mails_facts less_char_def)

theorem view_inbox_sorted_and_read_witness:
  "\<exists>out st'. view_inbox ''bob'' two_mails = Inr (out, st') \<and>
     map (\<lambda>(i, new, m). m\<lparr>read := True\<rparr>) out =
       [hello\<lparr>time := ''2024-05-01T10:00:00'', read := True\<rparr>,
        hello\<lparr>time := ''2024-05-02T09:00:00'', read := True\<rparr>] \<and>
     inbox_of st' ''bob'' = [0, 1] \<and>
     (0::nat) \<in> set (inbox_of st' ''bob'') \<and> read (heap st' 0) \<and> \<not> read (heap two_mails 0) \<and>
     (5::nat) \<notin> set (inbox_of two_mails ''bob'') \<and> heap st' 5 = blank"
proof -
  obtain out st' where v: "view_inbox ''bob'' two_mails = Inr (out, st')"
      "map (\<lambda>(i, new, m). m\<lparr>read := True\<rparr>) out =
         map (\<lambda>a. (heap two_mails a)\<lparr>read := True\<rparr>)
           (sort_key (\<lambda>a. time (heap two_mails a)) (inbox_of two_mails ''bob''))"
      "inbox_of st' ''bob'' = inbox_of two_mails ''bob''"
      "\<forall>a \<in> set (inbox_of st' ''bob'').
          read (heap st' a) \<and> heap st' a = (heap two_mails a)\<lparr>read := True\<rparr>"
      "\<forall>a. a \<notin> set (inbox_of two_mails ''bob'') \<longrightarrow> heap st' a = heap two_mails a"
    using view_inbox_sorted_and_read[of "''bob''" two_mails] by blast
  have "map (\<lambda>(i, new, m). m\<lparr>read := True\<rparr>) out =
       [hello\<lparr>time := ''2024-05-01T10:00:00'', read := True\<rparr>,
        hello\<lparr>time := ''2024-05-02T09:00:00'', read := True\<rparr>]"
    unfolding v(2) two_mails_facts(1) two_mails_sorted by (simp add: two_mails_facts)
  moreover have "inbox_of st' ''bob'' = [0, 1]" using v(3) by (simp add: two_mails_facts)
  moreover have "read (heap st' 0)" using v(3,4) by (simp add: two_mails_facts)
  moreover have "\<not> read (heap two_mails 0)" by (simp add: two_mails_facts hello_def)
  moreover have "heap st' 5 = blank" using v(5) by (simp add: two_mails_facts)
  ultimately show ?thesis using v(1) by (simp add: two_mails_facts)
qed


section \<open>Deleting from the inbox\<close>

lemma ensure_user_box_id: "inboxes st u \<noteq> None \<Longrightarrow> ensure_user_box u st = st"
  by (auto simp: ensure_user_box_def)

lemma py_int_error: "py_int s = Inl e \<Longrightarrow> e = ValueError"
  by (auto simp: py_int_def split: list.splits if_splits option.splits)

lemma list_pop_in_range:
  "0 \<le> i \<Longrightarrow> i < int (length xs) \<Longrightarrow>
   list_pop xs i = Inr (xs ! nat i, take (nat i) xs @ drop (Suc (nat i)) xs)"
  by (simp add: list_pop_def norm_index_def)

lemma set_inbox_simps:
  assumes "inboxes st u = Some mb"
  shows "inbox_of (set_inbox u xs st) u = xs"
    and "drafts_of (set_inbox u xs st) u = drafts mb"
    and "sent_of (set_inbox u xs st) u = sent mb"
    and "v \<noteq> u \<Longrightarrow> inboxes (set_inbox u xs st) v = inboxes st v"
    and "heap (set_inbox u xs st) = heap st"
    and "next_addr (set_inbox u xs st) = next_addr st"
  using assms by (simp_all add: set_inbox_def inbox_of_def drafts_of_def sent_of_def)

lemma delete_email_empty:
  assumes "inboxes st0 username = Some mb" and "inbox mb = []"
  shows "delete_email username line st0 = Inr (([], NoEmails), st0)"
  using assms by (simp add: delete_email_def ensure_user_box_id)

lemma delete_email_nonempty:
  assumes mb: "inboxes st0 username = Some mb" and ne: "inbox mb \<noteq> []"
  shows "\<exists>out report st'. delete_email username line st0 = Inr ((out, report), st') \<and>
     (\<forall>a. heap st' a = (if a \<in> set (inbox mb) then (heap st0 a)\<lparr>read := True\<rparr> else heap st0 a)) \<and>
     drafts_of st' username = drafts mb \<and> sent_of st' username = sent mb \<and>
     (\<forall>u. u \<noteq> username \<longrightarrow> inboxes st' u = inboxes st0 u) \<and>
     (case py_int line of
        Inr i \<Rightarrow>
          if 0 \<le> i \<and> i < int (length (inbox mb))
          then report = Deleted (msg_from (heap st0 (inbox mb ! nat i))) \<and>
               inbox_of st' username = take (nat i) (inbox mb) @ drop (Suc (nat i)) (inbox mb)
          else report = InvalidIndexD \<and> inbox_of st' username = inbox mb
      | Inl e \<Rightarrow> report = InvalidNumber \<and> inbox_of st' username = inbox mb)"
proof -
  let ?xs = "inbox mb"
  have e: "ensure_user_box username st0 = st0" using mb by (simp add: ensure_user_box_id)
  have xs: "inbox_of st0 username = ?xs" "drafts_of st0 username = drafts mb"
      "sent_of st0 username = sent mb"
    using mb by (simp_all add: inbox_of_def drafts_of_def sent_of_def)
  obtain out st1 where v: "view_inbox username st0 = Inr (out, st1)"
      "inboxes st1 = inboxes st0"
      "\<forall>a. heap st1 a = (if a \<in> set ?xs then (heap st0 a)\<lparr>read := True\<rparr> else heap st0 a)"
    using view_inbox_ok[of username st0] e xs(1) by auto
  have mb1: "inboxes st1 username = Some mb" using v(2) mb by simp
  have xs1: "inbox_of st1 username = ?xs" "drafts_of st1 username = drafts mb"
      "sent_of st1 username = sent mb"
    using mb1 by (simp_all add: inbox_of_def drafts_of_def sent_of_def)
  have from1: "msg_from (heap st1 a) = msg_from (heap st0 a)" for a
    using v(3) by simp
  show ?thesis
  proof (cases "py_int line")
    case (Inl err)
    then have "err = ValueError" by (rule py_int_error)
    then have "delete_email username line st0 = Inr ((out, InvalidNumber), st1)"
      using mb ne v(1) Inl by (simp add: delete_email_def e)
    then show ?thesis using Inl v(2,3) xs1 by simp
  next
    case (Inr i)
    show ?thesis
    proof (cases "0 \<le> i \<and> i < int (length ?xs)")
      case True
      let ?rest = "take (nat i) ?xs @ drop (Suc (nat i)) ?xs"
      have pop: "list_pop ?xs i = Inr (?xs ! nat i, ?rest)"
        using True by (simp add: list_pop_in_range)
      have "delete_email username line st0 =
              Inr ((out, Deleted (msg_from (heap st0 (?xs ! nat i)))), set_inbox username ?rest st1)"
        using mb ne v(1) Inr True pop by (simp add: delete_email_def e xs1 from1)
      then show ?thesis
        using Inr True v(2,3) set_inbox_simps[OF mb1, where xs = ?rest] by simp
    next
      case False
      then have "delete_email username line st0 = Inr ((out, InvalidIndexD), st1)"
        using mb ne v(1) Inr by (auto simp: delete_email_def e xs1)
      then show ?thesis using Inr False v(2,3) xs1 by auto
    qed
  qed
qed


lemma py_int_examples:
  "py_int ''2'' = Inr 2" "py_int ''5'' = Inr 5" "py_int ''-1'' = Inr (- 1)" "py_int ''two'' = Inl ValueError"
  by (simp_all add: py_int_def int_space_def parse_nat_def isdigit_def digit_val_def)

text \<open>
  C5 (amended). For a user whose inbox is empty, \<open>delete_email\<close> reports that
  there is nothing to delete and changes nothing. Otherwise it first lists the
  inbox, which sets the read flag of every inbox message; then an index in
  \<open>[0, n)\<close> removes exactly the message at that place of the stored list and
  reports its sender, an index outside \<open>[0, n)\<close> is reported as invalid and input
  that \<open>int\<close> rejects as not a number, and in both error cases the inbox list is
  as before. Drafts, sent, the other mailboxes and all fields but \<open>read\<close> are
  unchanged in every case.
\<close>

theorem delete_email_by_index:
  assumes "inboxes st0 username = Some mb"
  shows "(inbox mb = [] \<longrightarrow> delete_email username line st0 = Inr (([], NoEmails), st0)) \<and>
   (inbox mb \<noteq> [] \<longrightarrow>
     (\<exists>out report st'. delete_email username line st0 = Inr ((out, report), st') \<and>
       (\<forall>a. heap st' a = (if a \<in> set (inbox mb) then (heap st0 a)\<lparr>read := True\<rparr> else heap st0 a)) \<and>
       drafts_of st' username = drafts mb \<and> sent_of st' username = sent mb \<and>
       (\<forall>u. u \<noteq> username \<longrightarrow> inboxes st' u = inboxes st0 u) \<and>
       (case py_int line of
          Inr i \<Rightarrow>
            if 0 \<le> i \<and> i < int (length (inbox mb))
            then report = Deleted (msg_from (heap st0 (inbox mb ! nat i))) \<and>
                 inbox_of st' username = take (nat i) (inbox mb) @ drop (Suc (nat i)) (inbox mb)
            else report = InvalidIndexD \<and> inbox_of st' username = inbox mb
        | Inl e \<Rightarrow> report = InvalidNumber \<and> inbox_of st' username = inbox mb)))"
  using delete_email_empty[OF assms, of line] delete_email_nonempty[OF assms, of line]
  by blast

theorem delete_email_by_index_witness:
  "inboxes three_mails ''bob'' = Some \<lparr>inbox = [0, 1, 2], drafts = [], sent = []\<rparr> \<and>
   [0, 1, 2] \<noteq> ([] :: nat list) \<and>
   (\<exists>out st'. delete_email ''bob'' ''2'' three_mails = Inr ((out, Deleted ''dave''), st') \<and>
      inbox_of st' ''bob'' = [0, 1] \<and> read (heap st' 0) \<and> heap st' 7 = blank \<and>
      ''alice'' \<noteq> ''bob'' \<and> inboxes st' ''alice'' = None) \<and>
   (\<exists>out st'. delete_email ''bob'' ''5'' three_mails = Inr ((out, InvalidIndexD), st') \<and>
      inbox_of st' ''bob'' = [0, 1, 2]) \<and>
   (\<exists>out st'. delete_email ''bob'' ''two'' three_mails = Inr ((out, InvalidNumber), st') \<and>
      inbox_of st' ''bob'' = [0, 1, 2])"
proof -
  have mb: "inboxes three_mails ''bob'' = Some \<lparr>inbox = [0, 1, 2], drafts = [], sent = []\<rparr>"
    by (simp add: three_mails_def)
  have h: "heap three_mails 2 = hello\<lparr>msg_from := ''dave''\<rparr>" "heap three_mails 7 = blank"
      "heap three_mails 0 = hello"
    by (simp_all add: three_mails_def)
  have none: "inboxes three_mails ''alice'' = None" by (simp add: three_mails_def)
  have a: "\<exists>out st'. delete_email ''bob'' ''2'' three_mails = Inr ((out, Deleted ''dave''), st') \<and>
      inbox_of st' ''bob'' = [0, 1] \<and> read (heap st' 0) \<and> heap st' 7 = blank \<and>
      ''alice'' \<noteq> ''bob'' \<and> inboxes st' ''alice'' = None"
    using delete_email_by_index[OF mb, of "''2''"] by (auto simp: py_int_examples h none)
  have b: "\<exists>out st'. delete_email ''bob'' ''5'' three_mails = Inr ((out, InvalidIndexD), st') \<and>
      inbox_of st' ''bob'' = [0, 1, 2]"
    using delete_email_by_index[OF mb, of "''5''"] by (auto simp: py_int_examples)
  have c: "\<exists>out st'. delete_email ''bob'' ''two'' three_mails = Inr ((out, InvalidNumber), st') \<and>
      inbox_of st' ''bob'' = [0, 1, 2]"
    using delete_email_by_index[OF mb, of "''two''"] by (auto simp: py_int_examples)
  show ?thesis using mb a b c by simp
qed

text \<open>
  C5 as stated fails on the read flags: an invalid index is reported, yet the
  unread message at address 0 has been marked read by the listing.
\<close>

theorem delete_email_marks_read_counterexample:
  "snd (fst (projr (delete_email ''bob'' ''5'' three_mails))) = InvalidIndexD \<and>
   \<not> read (heap three_mails 0) \<and>
   read (heap (snd (projr (delete_email ''bob'' ''5'' three_mails))) 0)"
proof -
  have mb: "inboxes three_mails ''bob'' = Some \<lparr>inbox = [0, 1, 2], drafts = [], sent = []\<rparr>"
    by (simp add: three_mails_def)
  obtain out report st' where d: "delete_email ''bob'' ''5'' three_mails = Inr ((out, report), st')"
    "report = InvalidIndexD" "read (heap st' 0)"
    using delete_email_nonempty[OF mb, of "''5''"] by (auto simp: py_int_examples)
  have "\<not> read (heap three_mails 0)" by (simp add: three_mails_def hello_def)
  then show ?thesis using d by simp
qed


section \<open>Drafts\<close>

lemma split_examples:
  "split_ws ''del -1'' = [''del'', ''-1'']"
  "split_ws ''send -1'' = [''send'', ''-1'']"
  "strip ''del -1'' = ''del -1''"
  "strip ''send -1'' = ''send -1''"
  by (simp_all add: split_ws_def strip_def isspace_def)

text \<open>
  C4. With two drafts the command \<open>del -1\<close> is not reported as an error: \<open>pop\<close>
  takes the negative index from the end, the last draft is removed and the
  deletion is reported. (\<open>view_drafts_invalid\<close> and \<open>view_drafts_cancel\<close> below
  are the cases where the code does what C4 says.)
\<close>

theorem view_drafts_del_negative_index:
  "view_drafts ''alice'' ''del -1'' two_drafts =
     Inr (DraftDeleted, set_drafts ''alice'' [0] two_drafts) \<and>
   drafts_of two_drafts ''alice'' = [0, 1] \<and>
   drafts_of (set_drafts ''alice'' [0] two_drafts) ''alice'' = [0]"
  by (simp add: view_drafts_def try_del_draft_def split_examples py_int_examples
        list_index_def list_pop_def norm_index_def drafts_of_def set_drafts_def
        ensure_user_box_def two_drafts_def)

lemma view_drafts_send_negative_index:
  "\<not> isl (view_drafts ''alice'' ''send -1'' two_drafts) \<and>
   fst (projr (view_drafts ''alice'' ''send -1'' two_drafts)) = DraftSent \<and>
   drafts_of (snd (projr (view_drafts ''alice'' ''send -1'' two_drafts))) ''alice'' = [0] \<and>
   sent_of (snd (projr (view_drafts ''alice'' ''send -1'' two_drafts))) ''alice'' = [1] \<and>
   inbox_of (snd (projr (view_drafts ''alice'' ''send -1'' two_drafts))) ''bob'' = [2]"
  by (simp add: view_drafts_def try_send_draft_def split_examples py_int_examples
        list_index_def list_pop_def norm_index_def drafts_of_def sent_of_def inbox_of_def set_drafts_def
        ensure_user_box_def two_drafts_def hello_def append_inbox_copy_def append_sent_def alloc_def)


lemma list_pop_out_of_range:
  "i \<ge> int (length xs) \<or> i < - int (length xs) \<Longrightarrow> list_pop xs i = Inl IndexError"
  by (auto simp: list_pop_def norm_index_def)

lemma list_pop_negative:
  "- int (length xs) \<le> i \<Longrightarrow> i < 0 \<Longrightarrow>
   list_pop xs i = Inr (xs ! nat (int (length xs) + i),
                        take (nat (int (length xs) + i)) xs @ drop (Suc (nat (int (length xs) + i))) xs)"
  by (auto simp: list_pop_def norm_index_def)

lemma view_drafts_cancel:
  assumes "inboxes st0 username = Some mb" and "drafts mb \<noteq> []"
    and "\<not> prefix ''send'' (strip line)" and "\<not> prefix ''del'' (strip line)"
  shows "view_drafts username line st0 = Inr (Cancelled, st0)"
  using assms by (simp add: view_drafts_def ensure_user_box_id)

lemma view_drafts_invalid:
  assumes "inboxes st0 username = Some mb" and "drafts mb \<noteq> []"
    and "prefix ''send'' (strip line) \<or> prefix ''del'' (strip line)"
    and "case list_index (split_ws (strip line)) 1 of
           Inl e \<Rightarrow> True
         | Inr token \<Rightarrow>
             (case py_int token of
                Inl e \<Rightarrow> True
              | Inr i \<Rightarrow> i \<ge> int (length (drafts mb)) \<or> i < - int (length (drafts mb)))"
  shows "view_drafts username line st0 = Inr (InvalidIndex, st0)"
proof -
  have d: "drafts_of st0 username = drafts mb" using assms(1) by (simp add: drafts_of_def)
  have s': "\<exists>e. try_send_draft username (strip line) st0 = Inl (e, st0)"
    using assms(4) d list_pop_out_of_range[of "drafts mb"]
    by (auto simp: try_send_draft_def split: sum.splits)
  have t': "\<exists>e. try_del_draft username (strip line) st0 = Inl (e, st0)"
    using assms(4) d list_pop_out_of_range[of "drafts mb"]
    by (auto simp: try_del_draft_def split: sum.splits)
  show ?thesis
    using assms(1,2,3) s' t' by (auto simp: view_drafts_def ensure_user_box_id Let_def)
qed

lemma view_drafts_del_negative:
  assumes "inboxes st0 username = Some mb" and "drafts mb \<noteq> []"
    and "\<not> prefix ''send'' (strip line)" and "prefix ''del'' (strip line)"
    and "list_index (split_ws (strip line)) 1 = Inr token" and "py_int token = Inr i"
    and "- int (length (drafts mb)) \<le> i" and "i < 0"
  shows "view_drafts username line st0 =
           Inr (DraftDeleted,
                set_drafts username
                  (take (nat (int (length (drafts mb)) + i)) (drafts mb) @
                   drop (Suc (nat (int (length (drafts mb)) + i))) (drafts mb)) st0)"
proof -
  have d: "drafts_of st0 username = drafts mb" using assms(1) by (simp add: drafts_of_def)
  show ?thesis
    using assms(1-6) list_pop_negative[OF assms(7,8)]
    by (simp add: view_drafts_def ensure_user_box_id try_del_draft_def d Let_def)
qed


section \<open>Searching\<close>

lemma search_loop_filter:
  "search_loop keyword h ps results =
     results @ map (\<lambda>(i, a). (i, h a)) (filter (\<lambda>(i, a). matches keyword (h a)) ps)"
proof (induction ps arbitrary: results)
  case Nil
  then show ?case by simp
next
  case (Cons p ps)
  obtain i a where p: "p = (i, a)" by (cases p)
  show ?case
  proof (cases "matches keyword (h a)")
    case True
    then have "search_loop keyword h (p # ps) results = search_loop keyword h ps (results @ [(i, h a)])"
      by (simp add: p matches_def)
    then show ?thesis using True by (simp add: Cons.IH p)
  next
    case False
    then have "search_loop keyword h (p # ps) results = search_loop keyword h ps results"
      by (simp add: p matches_def)
    then show ?thesis using False by (simp add: Cons.IH p)
  qed
qed

lemma enumerate_heap:
  "map (\<lambda>(i, a). (i, h a)) (filter (\<lambda>(i, a). P (h a)) (enumerate n xs)) =
   filter (\<lambda>(i, m). P m) (enumerate n (map h xs))"
  by (induction xs arbitrary: n) auto

text \<open>
  C8. For a user with a mailbox, \<open>search_emails\<close> returns, in the stored order of
  the inbox, exactly the pairs of a 0-based place and the message there for which
  the stripped, lower-cased keyword is a substring of the lower-cased subject or of
  the lower-cased body, and leaves the whole state as it was; an empty keyword
  returns every message of the inbox with its place.
\<close>

theorem search_emails_matches:
  assumes "inboxes st0 username = Some mb"
  shows "search_emails username line st0 =
           Inr (filter (\<lambda>(i, m). sublist (lower (strip line)) (lower (subject m)) \<or>
                                  sublist (lower (strip line)) (lower (body m)))
                  (enumerate 0 (map (heap st0) (inbox mb))), st0) \<and>
         (strip line = [] \<longrightarrow>
            search_emails username line st0 = Inr (enumerate 0 (map (heap st0) (inbox mb)), st0))"
proof -
  have "search_emails username line st0 =
          Inr (filter (\<lambda>(i, m). matches (lower (strip line)) m)
                 (enumerate 0 (map (heap st0) (inbox mb))), st0)"
    using assms
    by (simp add: search_emails_def ensure_user_box_id search_loop_filter enumerate_heap Let_def)
  then show ?thesis by (simp add: matches_def lower_def)
qed


text \<open>For a user without a mailbox the search finds nothing and the empty mailbox is created.\<close>

lemma search_emails_no_mailbox:
  "inboxes st0 username = None \<Longrightarrow>
   search_emails username line st0 = Inr ([], ensure_user_box username st0)"
  by (simp add: search_emails_def ensure_user_box_def Let_def)

lemma search_box_eval:
  "lower (strip '' YOU '') = ''you''" "strip ''  '' = []" "lower [] = []"
  "lower (subject lunch) = ''lunch''" "lower (body lunch) = ''at noon''"
  "lower (subject hello) = ''hi''" "lower (body hello) = ''how are you?''"
  "\<not> sublist ''you'' ''lunch''" "\<not> sublist ''you'' ''at noon''"
  "\<not> sublist ''you'' ''hi''" "sublist ''you'' ''how are you?''"
  by code_simp+

theorem search_emails_matches_witness:
  "inboxes search_box ''bob'' = Some \<lparr>inbox = [0, 1], drafts = [], sent = []\<rparr> \<and>
   search_emails ''bob'' '' YOU '' search_box = Inr ([(1, hello)], search_box) \<and>
   strip ''  '' = [] \<and>
   search_emails ''bob'' ''  '' search_box = Inr ([(0, lunch), (1, hello)], search_box)"
proof -
  have mb: "inboxes search_box ''bob'' = Some \<lparr>inbox = [0, 1], drafts = [], sent = []\<rparr>"
    by (simp add: search_box_def)
  have h: "heap search_box 0 = lunch" "heap search_box (Suc 0) = hello"
    by (simp_all add: search_box_def)
  show ?thesis
    using search_emails_matches[OF mb, of "'' YOU ''"] search_emails_matches[OF mb, of "''  ''"]
    by (simp add: mb h search_box_eval)
qed


section \<open>Registration\<close>

lemma register_user_rejected:
  "\<forall>l \<in> set ls. users (strip l) \<noteq> None \<Longrightarrow>
   register_user users (ls @ inp) = register_user users inp"
  by (induction ls) auto

text \<open>
  C7 (amended). \<open>register_user\<close> passes over every typed name that, stripped, is
  already a key of the store, leaving the store as it is and prompting again (when
  no further line comes, nothing is registered). The first name that is not yet a
  key, be it empty or not, is inserted with the stripped password, and every other
  entry of the store is unchanged.
\<close>

theorem register_user_first_free_name:
  assumes "\<forall>l \<in> set ls. users (strip l) \<noteq> None" and "users (strip l) = None"
  shows "register_user users (ls @ l # p # rest) = Inr (strip l, users(strip l \<mapsto> strip p)) \<and>
         (\<forall>u. u \<noteq> strip l \<longrightarrow> (users(strip l \<mapsto> strip p)) u = users u) \<and>
         register_user users ls = Inl EOFError"
proof -
  have "register_user users (ls @ l # p # rest) = register_user users (l # p # rest)"
    using assms(1) by (rule register_user_rejected)
  moreover have "register_user users (ls @ []) = register_user users []"
    using assms(1) by (rule register_user_rejected)
  ultimately show ?thesis using assms(2) by simp
qed

lemma strip_examples:
  "strip ''alice'' = ''alice''" "strip '' alice '' = ''alice''" "strip ''bob'' = ''bob''"
  "strip '' pw'' = ''pw''" "strip '''' = ''''" "strip ''pw'' = ''pw''"
  by (simp_all add: strip_def isspace_def)

theorem register_user_first_free_name_witness:
  "[''alice'' \<mapsto> ''x''] (strip ''alice'') \<noteq> None \<and>
   [''alice'' \<mapsto> ''x''] (strip '' alice '') \<noteq> None \<and>
   [''alice'' \<mapsto> ''x''] (strip ''bob'') = None \<and>
   register_user [''alice'' \<mapsto> ''x''] [''alice'', '' alice '', ''bob'', '' pw''] =
     Inr (''bob'', [''alice'' \<mapsto> ''x'', ''bob'' \<mapsto> ''pw'']) \<and>
   ''alice'' \<noteq> strip ''bob'' \<and>
   ([''alice'' \<mapsto> ''x'', ''bob'' \<mapsto> ''pw'']) ''alice'' = Some ''x''"
  using register_user_first_free_name
          [of "[''alice'', '' alice '']" "[''alice'' \<mapsto> ''x'']" "''bob''" "'' pw''" "[]"]
  by (simp add: strip_examples)

text \<open>C7 as stated fails on the empty user name: it is registered.\<close>

theorem register_user_empty_name_counterexample:
  "register_user Map.empty ['''', ''pw''] = Inr ('''', ['''' \<mapsto> ''pw''])"
  by (simp add: strip_examples)

section \<open>Saving and loading\<close>

lemma hex_val_hex_digit: "k < 16 \<Longrightarrow> hex_val (hex_digit k) = Some k"
  by (auto simp: hex_val_def hex_digit_def Let_def)

lemma hex4_escape:
  "hex4 CHR ''0'' CHR ''0'' (hex_digit ((of_char c :: nat) div 16)) (hex_digit ((of_char c :: nat) mod 16))
     = Some c"
proof -
  have lt: "(of_char c :: nat) < 256" by (rule nat_of_char_less_256)
  then have a: "(of_char c :: nat) div 16 < 16" by arith
  have b: "(of_char c :: nat) mod 16 < 16" by simp
  have z: "hex_val CHR ''0'' = Some 0" by (simp add: hex_val_def)
  show ?thesis
    by (simp add: hex4_def z hex_val_hex_digit[OF a] hex_val_hex_digit[OF b])
qed

lemma scan_string_escape:
  "scan_string acc (escape_char c @ rest) = scan_string (c # acc) rest"
proof -
  consider (q) "c = quote" | (b) "c = backslash"
    | (n) "c = CHR 0x0A" | (r) "c = CHR 0x0D" | (t) "c = CHR 0x09" | (bs) "c = CHR 0x08" | (f) "c = CHR 0x0C"
    | (p) "c \<noteq> quote" "c \<noteq> backslash" "32 \<le> (of_char c :: nat)" "(of_char c :: nat) \<le> 126"
    | (u) "c \<noteq> quote" "c \<noteq> backslash" "c \<noteq> CHR 0x0A" "c \<noteq> CHR 0x0D" "c \<noteq> CHR 0x09" "c \<noteq> CHR 0x08"
          "c \<noteq> CHR 0x0C" "\<not> (32 \<le> (of_char c :: nat) \<and> (of_char c :: nat) \<le> 126)"
    by blast
  then show ?thesis
  proof cases
    case q then show ?thesis by (simp add: escape_char_def unescape_def quote_def backslash_def)
  next
    case b then show ?thesis by (simp add: escape_char_def unescape_def quote_def backslash_def)
  next
    case n then show ?thesis by (simp add: escape_char_def unescape_def quote_def backslash_def)
  next
    case r then show ?thesis by (simp add: escape_char_def unescape_def quote_def backslash_def)
  next
    case t then show ?thesis by (simp add: escape_char_def unescape_def quote_def backslash_def)
  next
    case bs then show ?thesis by (simp add: escape_char_def unescape_def quote_def backslash_def)
  next
    case f then show ?thesis by (simp add: escape_char_def unescape_def quote_def backslash_def)
  next
    case p
    then have "escape_char c = [c]" by (auto simp: escape_char_def)
    then show ?thesis using p by simp
  next
    case u
    then have "escape_char c = [backslash, CHR ''u'', CHR ''0'', CHR ''0'',
            hex_digit ((of_char c :: nat) div 16), hex_digit ((of_char c :: nat) mod 16)]"
      by (simp add: escape_char_def)
    then show ?thesis by (simp add: hex4_escape quote_def backslash_def)
  qed
qed

lemma scan_string_dump:
  "scan_string acc (concat (map escape_char s) @ quote # rest) = Inr (rev acc @ s, rest)"
proof (induction s arbitrary: acc)
  case Nil
  then show ?case by simp
next
  case (Cons c s)
  have "scan_string acc (concat (map escape_char (c # s)) @ quote # rest) =
        scan_string (c # acc) (concat (map escape_char s) @ quote # rest)"
    by (simp add: scan_string_escape)
  then show ?case by (simp add: Cons.IH)
qed

lemma scan_string_dump_str:
  "dump_str s @ rest = quote # t \<Longrightarrow> scan_string [] t = Inr (s, rest)"
  using scan_string_dump[of "[]" s rest] by (simp add: dump_str_def)

lemma join_items_text:
  "items \<noteq> [] \<Longrightarrow> join_items level items @ tail = newline_indent level @ items_text level items tail"
  by (induction level items rule: join_items.induct) simp_all

lemma skip_ws_newline_indent: "skip_ws (newline_indent level @ s) = skip_ws s"
proof -
  have "dropWhile json_ws (replicate k CHR '' '' @ s) = dropWhile json_ws s" for k
    by (induction k) (simp_all add: json_ws_def)
  then show ?thesis by (simp add: skip_ws_def newline_indent_def json_ws_def)
qed

lemma skip_ws_no_ws: "\<not> json_ws c \<Longrightarrow> skip_ws (c # s) = c # s"
  by (simp add: skip_ws_def)

lemma dump_str_Cons: "dump_str s = quote # concat (map escape_char s) @ [quote]"
  by (simp add: dump_str_def)

lemma value_start_quote: "value_start quote"
  by (simp add: value_start_def quote_def json_ws_def)

lemma json_dumps_start: "\<exists>c cs. json_dumps level v = c # cs \<and> value_start c"
proof (cases v)
  case (PStr s)
  then show ?thesis by (simp add: dump_str_Cons value_start_quote)
qed (auto simp: value_start_def json_ws_def)

lemma skip_ws_json_dumps: "skip_ws (json_dumps level v @ s) = json_dumps level v @ s"
proof -
  obtain c cs where "json_dumps level v = c # cs" "value_start c"
    using json_dumps_start by blast
  then show ?thesis by (simp add: skip_ws_no_ws value_start_def)
qed

lemma items_text_start:
  assumes "xs \<noteq> []"
  shows "skip_ws (items_text level (map (json_dumps l) xs) tail) =
     items_text level (map (json_dumps l) xs) tail"
proof (cases xs)
  case Nil
  then show ?thesis using assms by simp
next
  case (Cons x xs')
  show ?thesis
  proof (cases xs')
    case Nil
    then show ?thesis using Cons by (simp add: skip_ws_json_dumps)
  next
    case (Cons y ys)
    then show ?thesis using \<open>xs = x # xs'\<close> by (simp add: skip_ws_json_dumps)
  qed
qed

lemma scan_array_items:
  assumes IH: "\<And>x n level rest. x \<in> set xs \<Longrightarrow> cost x \<le> n \<Longrightarrow>
                 scan_once n (json_dumps level x @ rest) = Inr (x, rest)"
  shows "xs \<noteq> [] \<Longrightarrow> sum_list (map (\<lambda>x. Suc (cost x)) xs) \<le> n \<Longrightarrow>
         scan_array n acc
           (items_text level (map (json_dumps level) xs) (newline_indent level0 @ CHR '']'' # rest)) =
         Inr (PList (acc @ xs), rest)"
  using IH
proof (induction xs arbitrary: n acc)
  case Nil
  then show ?case by simp
next
  case (Cons x xs)
  let ?tail = "newline_indent level0 @ CHR '']'' # rest"
  from Cons.prems(2) obtain n' where n: "n = Suc n'" "cost x \<le> n'"
      "sum_list (map (\<lambda>x. Suc (cost x)) xs) \<le> n'"
    by (cases n) auto
  have sx: "scan_once n' (json_dumps level x @ t) = Inr (x, t)" for t
    using Cons.prems(3)[of x n' level t] n(2) by simp
  show ?case
  proof (cases xs)
    case Nil
    have "skip_ws ?tail = CHR '']'' # rest"
      by (simp add: skip_ws_newline_indent skip_ws_no_ws json_ws_def)
    then show ?thesis using Nil n(1) sx by simp
  next
    case (Cons y ys)
    let ?more = "items_text level (map (json_dumps level) xs) ?tail"
    have shape: "items_text level (map (json_dumps level) (x # xs)) ?tail =
               json_dumps level x @ CHR '','' # newline_indent level @ ?more"
      using Cons by simp
    have sk1: "skip_ws (CHR '','' # newline_indent level @ ?more) = CHR '','' # newline_indent level @ ?more"
      by (simp add: skip_ws_no_ws json_ws_def)
    have ne: "xs \<noteq> []" using Cons by simp
    have sk2: "skip_ws (newline_indent level @ ?more) = ?more"
      by (simp only: skip_ws_newline_indent items_text_start[OF ne])
    have rec: "scan_array n' (acc @ [x]) ?more = Inr (PList ((acc @ [x]) @ xs), rest)"
      using Cons.IH[of n' \<open>acc @ [x]\<close>] Cons n(3) Cons.prems(3) by simp
    show ?thesis
      unfolding shape n(1) using sx sk1 sk2 rec by simp
  qed
qed

lemma member_text_eq: "(\<lambda>(k, v). dump_str k @ '': '' @ json_dumps level v) = member_text level"
  by (auto simp: member_text_def)

lemma member_text_Cons:
  "member_text level (k, v) @ t = quote # (concat (map escape_char k) @ quote # '': '' @ json_dumps level v @ t)"
  by (simp add: member_text_def dump_str_def)

lemma members_text_start:
  assumes "kvs \<noteq> []"
  shows "skip_ws (items_text level (map (member_text l) kvs) tail) =
     items_text level (map (member_text l) kvs) tail"
proof (cases kvs)
  case Nil
  then show ?thesis using assms by simp
next
  case (Cons kv kvs')
  have q: "\<not> json_ws quote" by (simp add: json_ws_def quote_def)
  obtain k v where kv: "kv = (k, v)" by (cases kv)
  show ?thesis
  proof (cases kvs')
    case Nil
    then show ?thesis using Cons kv q by (simp add: member_text_Cons skip_ws_no_ws del: append_Cons)
  next
    case (Cons y ys)
    then show ?thesis using \<open>kvs = kv # kvs'\<close> kv q
      by (simp add: member_text_Cons skip_ws_no_ws)
  qed
qed

lemma dict_set_new: "k \<notin> fst ` set d \<Longrightarrow> dict_set d k v = d @ [(k, v)]"
  by (induction d) auto

lemma scan_object_members:
  assumes IH: "\<And>k v n level rest. (k, v) \<in> set kvs \<Longrightarrow> cost v \<le> n \<Longrightarrow>
                 scan_once n (json_dumps level v @ rest) = Inr (v, rest)"
  shows "kvs \<noteq> [] \<Longrightarrow> sum_list (map (\<lambda>(k, v). Suc (cost v)) kvs) \<le> n \<Longrightarrow>
         distinct (map fst (acc @ kvs)) \<Longrightarrow>
         scan_object n acc
           (items_text level (map (member_text level) kvs) (newline_indent level0 @ CHR ''}'' # rest)) =
         Inr (PDict (acc @ kvs), rest)"
  using IH
proof (induction kvs arbitrary: n acc)
  case Nil
  then show ?case by simp
next
  case (Cons kv kvs)
  obtain k v where kv: "kv = (k, v)" by (cases kv)
  let ?tail = "newline_indent level0 @ CHR ''}'' # rest"
  from Cons.prems(2) obtain n' where n: "n = Suc n'" "cost v \<le> n'"
      "sum_list (map (\<lambda>(k, v). Suc (cost v)) kvs) \<le> n'"
    by (cases n) (auto simp: kv)
  have sv: "scan_once n' (json_dumps level v @ t) = Inr (v, t)" for t
    using Cons.prems(4)[of k v n' level t] n(2) kv by simp
  have new: "dict_set acc k v = acc @ [(k, v)]"
    using Cons.prems(3) kv by (intro dict_set_new) auto
  have key: "scan_string [] (concat (map escape_char k) @ quote # t) = Inr (k, t)" for t
    using scan_string_dump[of "[]" k t] by simp
  have colon: "skip_ws ('': '' @ t) = CHR '':'' # CHR '' '' # t" for t
    by (simp add: skip_ws_no_ws json_ws_def)
  have sp: "skip_ws (CHR '' '' # json_dumps level v @ t) = json_dumps level v @ t" for t
    using skip_ws_json_dumps[of level v t] by (simp add: skip_ws_def json_ws_def)
  have one: "scan_object (Suc n') acc (member_text level (k, v) @ t) =
      (case skip_ws t of
         [] \<Rightarrow> Inl ValueError
       | d # ds \<Rightarrow>
           if d = CHR ''}'' then Inr (PDict (acc @ [(k, v)]), ds)
           else if d = CHR '','' then scan_object n' (acc @ [(k, v)]) (skip_ws ds)
           else Inl ValueError)" for t
    unfolding member_text_Cons
    apply (simp add: key colon sp sv del: append_Cons)
    apply (unfold new)
    apply (rule refl)
    done
  show ?case
  proof (cases kvs)
    case Nil
    have "skip_ws ?tail = CHR ''}'' # rest"
      by (simp add: skip_ws_newline_indent skip_ws_no_ws json_ws_def)
    then show ?thesis using Nil n(1) kv one[of ?tail] by simp
  next
    case (Cons y ys)
    let ?more = "items_text level (map (member_text level) kvs) ?tail"
    have shape: "items_text level (map (member_text level) (kv # kvs)) ?tail =
               member_text level (k, v) @ (CHR '','' # newline_indent level @ ?more)"
      using Cons kv by simp
    have sk1: "skip_ws (CHR '','' # newline_indent level @ ?more) = CHR '','' # newline_indent level @ ?more"
      by (simp add: skip_ws_no_ws json_ws_def)
    have ne: "kvs \<noteq> []" using Cons by simp
    have sk2: "skip_ws (newline_indent level @ ?more) = ?more"
      by (simp only: skip_ws_newline_indent members_text_start[OF ne])
    have d: "distinct (map fst ((acc @ [(k, v)]) @ kvs))"
      using Cons.prems(3) kv by simp
    have ih: "scan_once m (json_dumps l v' @ t) = Inr (v', t)"
      if "(k', v') \<in> set kvs" "cost v' \<le> m" for k' v' m l t
      using Cons.prems(4)[of k' v' m l t] that by simp
    have rec: "scan_object n' (acc @ [(k, v)]) ?more = Inr (PDict ((acc @ [(k, v)]) @ kvs), rest)"
      by (rule Cons.IH[OF ne n(3) d]) (rule ih)
    show ?thesis
      unfolding shape n(1) one using sk1 sk2 rec kv by simp
  qed
qed

lemma items_text_value_start:
  assumes "xs \<noteq> []"
  shows "\<exists>d ds. items_text level (map (json_dumps l) xs) tail = d # ds \<and> value_start d"
proof -
  obtain x xs' where xs: "xs = x # xs'" using assms by (cases xs) auto
  obtain c cs where c: "json_dumps l x = c # cs" "value_start c"
    using json_dumps_start by blast
  show ?thesis by (cases xs') (simp_all add: xs c)
qed

lemma members_text_value_start:
  assumes "kvs \<noteq> []"
  shows "\<exists>ds. items_text level (map (member_text l) kvs) tail = quote # ds"
proof -
  obtain kv kvs' where kvs: "kvs = kv # kvs'" using assms by (cases kvs) auto
  have "\<exists>ds. member_text l kv = quote # ds"
    by (simp add: member_text_def dump_str_def)
  then obtain ds where "member_text l kv = quote # ds" by blast
  then show ?thesis by (cases kvs') (simp_all add: kvs)
qed

lemma scan_once_open_array:
  assumes "skip_ws cs = d # ds" and "d \<noteq> CHR '']''"
  shows "scan_once (Suc n) (CHR ''['' # cs) = scan_array n [] (d # ds)"
  using assms by (simp add: quote_def)

lemma scan_once_open_object:
  assumes "skip_ws cs = d # ds" and "d \<noteq> CHR ''}''"
  shows "scan_once (Suc n) (CHR ''{'' # cs) = scan_object n [] (d # ds)"
  using assms by (simp add: quote_def)

lemma json_dumps_PDict:
  "json_dumps level (PDict kvs) =
     (if kvs = [] then ''{}''
      else ''{'' @ join_items (Suc level) (map (member_text (Suc level)) kvs) @
           newline_indent level @ ''}'')"
proof -
  have "member_text (Suc level) =
        (\<lambda>p. dump_str (fst p) @ '': '' @ json_dumps (Suc level) (snd p))"
    by (rule ext) (simp add: member_text_def)
  then show ?thesis by (simp add: case_prod_unfold)
qed

lemma scan_once_quote:
  "scan_once (Suc n) (quote # cs) =
     (case scan_string [] cs of Inl e \<Rightarrow> Inl e | Inr (str, rest) \<Rightarrow> Inr (PStr str, rest))"
  by simp

lemma scan_once_literals:
  "scan_once (Suc n) (''null'' @ rest) = Inr (PNone, rest)"
  "scan_once (Suc n) (''true'' @ rest) = Inr (PBool True, rest)"
  "scan_once (Suc n) (''false'' @ rest) = Inr (PBool False, rest)"
  by (simp_all add: quote_def)

lemma scan_once_empty:
  "scan_once (Suc n) (''[]'' @ rest) = Inr (PList [], rest)"
  "scan_once (Suc n) (''{}'' @ rest) = Inr (PDict [], rest)"
  by (simp_all add: quote_def skip_ws_def json_ws_def)

declare scan_once.simps [simp del]

lemma scan_once_json_dumps:
  "keys_distinct v \<Longrightarrow> cost v \<le> n \<Longrightarrow> scan_once n (json_dumps level v @ rest) = Inr (v, rest)"
proof (induction v arbitrary: n level rest)
  case PNone
  then obtain n' where "n = Suc n'" by (cases n) auto
  then show ?case using scan_once_literals(1)[of n' rest] by simp
next
  case (PBool b)
  then obtain n' where "n = Suc n'" by (cases n) auto
  then show ?case using scan_once_literals(2,3)[of n' rest] by simp
next
  case (PStr s)
  then obtain n' where "n = Suc n'" by (cases n) auto
  then show ?case by (simp add: dump_str_def scan_once_quote scan_string_dump)
next
  case (PList xs)
  then obtain n' where n: "n = Suc n'" "sum_list (map (\<lambda>x. Suc (cost x)) xs) \<le> n'"
    by (cases n) auto
  show ?case
  proof (cases "xs = []")
    case True
    show ?thesis using True n(1) scan_once_empty(1)[of n' rest] by simp
  next
    case False
    let ?tail = "newline_indent level @ CHR '']'' # rest"
    let ?items = "items_text (Suc level) (map (json_dumps (Suc level)) xs) ?tail"
    have shape: "json_dumps level (PList xs) @ rest = CHR ''['' # newline_indent (Suc level) @ ?items"
      using False join_items_text[of "map (json_dumps (Suc level)) xs" "Suc level" ?tail] by simp
    have sk: "skip_ws (newline_indent (Suc level) @ ?items) = ?items"
      by (simp only: skip_ws_newline_indent items_text_start[OF False])
    obtain d ds where d: "?items = d # ds" "value_start d"
      using items_text_value_start[OF False] by blast
    have ih: "scan_once m (json_dumps l x @ t) = Inr (x, t)" if "x \<in> set xs" "cost x \<le> m" for x m l t
      using PList.IH[OF that(1) _ that(2)] PList.prems(1) that(1) by (simp add: list_all_iff)
    have "scan_array n' [] ?items = Inr (PList ([] @ xs), rest)"
      by (rule scan_array_items[OF _ False n(2)]) (rule ih)
    then show ?thesis
      unfolding shape n(1)
      using scan_once_open_array[of "newline_indent (Suc level) @ ?items" d ds n'] sk d
      by (simp add: value_start_def)
  qed
next
  case (PDict kvs)
  then obtain n' where n: "n = Suc n'" "sum_list (map (\<lambda>(k, v). Suc (cost v)) kvs) \<le> n'"
    by (cases n) auto
  show ?case
  proof (cases "kvs = []")
    case True
    show ?thesis using True n(1) scan_once_empty(2)[of n' rest] by simp
  next
    case False
    let ?tail = "newline_indent level @ CHR ''}'' # rest"
    let ?items = "items_text (Suc level) (map (member_text (Suc level)) kvs) ?tail"
    have shape: "json_dumps level (PDict kvs) @ rest = CHR ''{'' # newline_indent (Suc level) @ ?items"
      using False join_items_text[of "map (member_text (Suc level)) kvs" "Suc level" ?tail]
      by (simp add: json_dumps_PDict del: json_dumps.simps)
    have sk: "skip_ws (newline_indent (Suc level) @ ?items) = ?items"
      by (simp only: skip_ws_newline_indent members_text_start[OF False])
    obtain ds where d: "?items = quote # ds"
      using members_text_value_start[OF False] by blast
    have q: "quote \<noteq> CHR ''}''" by (simp add: quote_def)
    have dist: "distinct (map fst ([] @ kvs))" using PDict.prems(1) by simp
    have ih: "scan_once m (json_dumps l v @ t) = Inr (v, t)"
      if "(k, v) \<in> set kvs" "cost v \<le> m" for k v m l t
    proof -
      have "keys_distinct v" using PDict.prems(1) that(1) by (auto simp: list_all_iff)
      moreover have "v \<in> Basic_BNFs.snds (k, v)" by simp
      ultimately show ?thesis using PDict.IH[OF that(1) _ _ that(2)] by blast
    qed
    have "scan_object n' [] ?items = Inr (PDict ([] @ kvs), rest)"
      by (rule scan_object_members[OF _ False n(2) dist]) (rule ih)
    then show ?thesis
      unfolding shape n(1)
      using scan_once_open_object[of "newline_indent (Suc level) @ ?items" quote ds n'] sk d q
      by simp
  qed
qed

lemma length_join_items:
  "sum_list (map (\<lambda>x. Suc (length x)) items) \<le> length (join_items level items)"
  by (induction level items rule: join_items.induct) (simp_all add: newline_indent_def)

lemma cost_le_length: "cost v \<le> length (json_dumps level v)"
proof (induction v arbitrary: level)
  case (PList xs)
  have "sum_list (map (\<lambda>x. Suc (cost x)) xs) \<le>
        sum_list (map (\<lambda>x. Suc (length x)) (map (json_dumps (Suc level)) xs))"
    unfolding map_map comp_def
    by (rule sum_list_mono) (simp add: PList.IH)
  also have "\<dots> \<le> length (join_items (Suc level) (map (json_dumps (Suc level)) xs))"
    by (rule length_join_items)
  finally show ?case by simp
next
  case (PDict kvs)
  have "sum_list (map (\<lambda>(k, v). Suc (cost v)) kvs) \<le>
        sum_list (map (\<lambda>x. Suc (length x)) (map (member_text (Suc level)) kvs))"
    unfolding map_map comp_def
  proof (rule sum_list_mono)
    fix kv assume kv: "kv \<in> set kvs"
    obtain k v where e: "kv = (k, v)" by (cases kv)
    have "cost v \<le> length (json_dumps (Suc level) v)"
      using PDict.IH[of kv v "Suc level"] kv e by simp
    then show "(case kv of (k, v) \<Rightarrow> Suc (cost v)) \<le> Suc (length (member_text (Suc level) kv))"
      by (simp add: e member_text_def)
  qed
  also have "\<dots> \<le> length (join_items (Suc level) (map (member_text (Suc level)) kvs))"
    by (rule length_join_items)
  finally show ?case by (simp add: json_dumps_PDict del: json_dumps.simps)
qed (simp_all add: dump_str_def)

lemma json_loads_json_dump:
  assumes "keys_distinct v"
  shows "json_loads (json_dump v) = Inr v"
proof -
  have "cost v \<le> Suc (2 * length (json_dumps 0 v))"
    using cost_le_length[of v 0] by simp
  then have "scan_once (Suc (2 * length (json_dumps 0 v))) (json_dumps 0 v @ []) = Inr (v, [])"
    using assms by (rule scan_once_json_dumps[rotated])
  moreover have "skip_ws (json_dumps 0 v) = json_dumps 0 v"
    using skip_ws_json_dumps[of 0 v "[]"] by simp
  ultimately show ?thesis by (simp add: json_loads_def json_dump_def skip_ws_def)
qed

lemma map_filter_keys:
  "map fst (List.map_filter (\<lambda>u. map_option (\<lambda>x. (u, f x)) (m u)) names) =
     filter (\<lambda>u. m u \<noteq> None) names"
  by (induction names) (auto simp: split: option.splits)

lemma map_filter_values:
  "(k, v) \<in> set (List.map_filter (\<lambda>u. map_option (\<lambda>x. (u, f x)) (m u)) names) \<Longrightarrow>
   \<exists>x. m k = Some x \<and> v = f x"
  by (induction names) (auto simp: split: option.splits)

lemma keys_distinct_message_value: "keys_distinct (message_value m)"
  by (simp add: message_value_def list_all_iff)

lemma keys_distinct_mailbox_value: "keys_distinct (mailbox_value h mb)"
  by (simp add: mailbox_value_def list_all_iff keys_distinct_message_value)

lemma keys_distinct_users_value: "distinct names \<Longrightarrow> keys_distinct (users_value users names)"
  by (auto simp: users_value_def map_filter_keys list_all_iff dest: map_filter_values)

lemma keys_distinct_inboxes_value: "distinct names \<Longrightarrow> keys_distinct (inboxes_value st names)"
  by (auto simp: inboxes_value_def map_filter_keys list_all_iff keys_distinct_mailbox_value
           dest!: map_filter_values)

lemma load_save_json:
  "keys_distinct data \<Longrightarrow> load_json (save_json fs filename data) filename = Inr data"
  by (simp add: load_json_def save_json_def json_loads_json_dump)

lemma load_save_other:
  "other \<noteq> filename \<Longrightarrow> load_json (save_json fs filename data) other = load_json fs other"
  by (simp add: load_json_def save_json_def)

lemma users_value_items:
  "distinct (map fst items) \<Longrightarrow>
   users_value (map_of items) (map fst items) = PDict (map (\<lambda>(u, p). (u, PStr p)) items)"
proof -
  assume d: "distinct (map fst items)"
  have "List.map_filter (\<lambda>u. map_option (\<lambda>p. (u, PStr p)) (map_of items u)) (map fst xs) =
        map (\<lambda>(u, p). (u, PStr p)) xs" if "set xs \<subseteq> set items" for xs
    using that
  proof (induction xs)
    case Nil
    then show ?case by simp
  next
    case (Cons x xs)
    obtain u p where x: "x = (u, p)" by (cases x)
    have "map_of items u = Some p" using Cons.prems d x by simp
    then show ?case using Cons x by simp
  qed
  then show ?thesis by (simp add: users_value_def)
qed

text \<open>
  C9. For every accounts dict and every mailboxes dict (their keys in any order
  without repetition), \<open>load_json\<close> after \<open>save_json\<close> on the same path returns
  the value that was saved, key order included; after both stores were saved as on
  exit each is loaded back from its own file; \<open>load_json\<close> on a path with no file
  returns the empty dict.
\<close>

theorem save_then_load_json:
  assumes "distinct user_names" and "distinct box_names"
  shows "load_json (save_json fs filename (users_value users user_names)) filename =
           Inr (users_value users user_names) \<and>
         load_json (save_json fs filename (inboxes_value st box_names)) filename =
           Inr (inboxes_value st box_names) \<and>
         load_json
           (save_json (save_json fs INBOX_FILE (inboxes_value st box_names))
              USERS_FILE (users_value users user_names))
           USERS_FILE = Inr (users_value users user_names) \<and>
         load_json
           (save_json (save_json fs INBOX_FILE (inboxes_value st box_names))
              USERS_FILE (users_value users user_names))
           INBOX_FILE = Inr (inboxes_value st box_names) \<and>
         (fs missing = None \<longrightarrow> load_json fs missing = Inr (PDict []))"
proof -
  have u: "keys_distinct (users_value users user_names)"
    using assms(1) by (rule keys_distinct_users_value)
  have b: "keys_distinct (inboxes_value st box_names)"
    using assms(2) by (rule keys_distinct_inboxes_value)
  have ne: "INBOX_FILE \<noteq> USERS_FILE" by (simp add: INBOX_FILE_def USERS_FILE_def)
  show ?thesis
    using load_save_json[OF u] load_save_json[OF b] load_save_other[OF ne]
    by (simp add: load_json_def)
qed

lemma value_examples:
  "users_value [''alice'' \<mapsto> ''pw''] [''alice''] = PDict [(''alice'', PStr ''pw'')]"
  "inboxes_value search_box [''bob''] =
     PDict [(''bob'', PDict [(''inbox'', PList [message_value lunch, message_value hello]),
                            (''drafts'', PList []), (''sent'', PList [])])]"
  by (simp_all add: users_value_def inboxes_value_def mailbox_value_def search_box_def)

lemma json_dump_example:
  "json_dump (PDict [(''alice'', PStr ''pw'')]) =
     [CHR ''{'', CHR 0x0A] @ ''    '' @ [CHR 0x22] @ ''alice'' @ [CHR 0x22] @ '': '' @
     [CHR 0x22] @ ''pw'' @ [CHR 0x22, CHR 0x0A, CHR ''}'']"
  by code_simp

theorem save_then_load_json_witness:
  "distinct [''alice''] \<and> distinct [''bob''] \<and>
   load_json (save_json Map.empty USERS_FILE (PDict [(''alice'', PStr ''pw'')])) USERS_FILE =
     Inr (PDict [(''alice'', PStr ''pw'')]) \<and>
   load_json
     (save_json (save_json Map.empty INBOX_FILE (inboxes_value search_box [''bob'']))
        USERS_FILE (users_value [''alice'' \<mapsto> ''pw''] [''alice'']))
     INBOX_FILE =
     Inr (PDict [(''bob'', PDict [(''inbox'', PList [message_value lunch, message_value hello]),
                                 (''drafts'', PList []), (''sent'', PList [])])]) \<and>
   (Map.empty :: files) ''nowhere.json'' = None \<and>
   load_json Map.empty ''nowhere.json'' = Inr (PDict [])"
  using save_then_load_json
          [of "[''alice'']" "[''bob'']" Map.empty USERS_FILE "[''alice'' \<mapsto> ''pw'']" search_box
              "''nowhere.json''"]
  by (simp add: value_examples)

end
